theory Spec2Isabelle
  imports Main "HOL-Library.Word"
begin

section \<open>The digit-image slot cache of the CST watch face (src/src/cst.c)\<close>

text \<open>
  The watch face shows the time as four large digit images, one per screen quarter
  ("slot"). The C program keeps three global arrays of length four:
  \<^item> \<open>image_slot_state\<close>: the digit shown in the slot, or \<open>EMPTY_SLOT\<close>;
  \<open>images\<close>: the \<open>GBitmap *\<close> of the slot; \<open>image_layers\<close>: its \<open>BitmapLayer *\<close>.
  The functions \<open>load_digit_image_into_slot\<close>, \<open>unload_digit_image_from_slot\<close>,
  \<open>display_value\<close>, \<open>get_display_hour\<close> and the slot loop of \<open>app_destroy\<close> are embedded
  below as state transformers on a record of these globals together with the state
  of the platform (the bitmaps and layers that are currently allocated).

  A pointer is a \<open>nat option\<close>: \<open>None\<close> is \<open>NULL\<close>, \<open>Some h\<close> points to the allocation
  number \<open>h\<close>. Allocations are never renumbered, so a pointer that outlives its object
  (the C code does not reset \<open>images[i]\<close> after \<open>gbitmap_destroy\<close>) is a \<open>Some h\<close> with
  \<open>h\<close> no longer live. Undefined behaviour of the C program (dereferencing \<open>NULL\<close>,
  indexing an array out of range, destroying an object that is not live) is a value
  of type \<open>fault\<close>, returned as \<open>Inl\<close>; \<open>Inr\<close> is a normal return.
\<close>

subsection \<open>Constants and state\<close>

definition TOTAL_IMAGE_SLOTS :: int where
  "TOTAL_IMAGE_SLOTS = 4"

definition EMPTY_SLOT :: int where
  "EMPTY_SLOT = - 1"

datatype fault = NullDeref | OutOfBounds | InvalidFree

text \<open>
  The trace records, in order, every call of the two slot operations and every
  bitmap request and release that reaches the platform. It is only ever appended
  to and never read by the program.
\<close>

datatype event =
    CallLoad int int
  | CallUnload int
  | Acquire int nat
  | AcquireFailed int
  | Release nat

record app_state =
  image_slot_state :: "int list"
  images :: "nat option list"
  image_layers :: "nat option list"
  zero_prefix :: bool
  refused :: "nat list"
  requests :: nat
  live_bitmaps :: "nat list"
  layers_made :: nat
  live_layers :: "nat list"
  trace :: "event list"

text \<open>
  The static initialisers of the C file: every slot empty, every pointer \<open>NULL\<close>,
  \<open>zero_prefix\<close> false. \<open>rs\<close> lists the bitmap requests (numbered from 0 in the
  order they are made) that the platform will not be able to satisfy.
\<close>

definition initial_state :: "nat list \<Rightarrow> app_state" where
  "initial_state rs =
     \<lparr> image_slot_state = [EMPTY_SLOT, EMPTY_SLOT, EMPTY_SLOT, EMPTY_SLOT],
       images = [None, None, None, None],
       image_layers = [None, None, None, None],
       zero_prefix = False,
       refused = rs,
       requests = 0,
       live_bitmaps = [],
       layers_made = 0,
       live_layers = [],
       trace = [] \<rparr>"

definition and_then :: "fault + 'a \<Rightarrow> ('a \<Rightarrow> fault + 'b) \<Rightarrow> fault + 'b" where
  "and_then r f = (case r of Inl e \<Rightarrow> Inl e | Inr x \<Rightarrow> f x)"

subsection \<open>The platform: bitmaps and layers\<close>

text \<open>
  Modelled from the spec: the Asset Store and the Display Surface are Pebble SDK
  functions that are not part of the repository. The spec gives
  \<open>acquire(digit) -> Result<OpaqueHandle, AssetUnavailable>\<close> and an infallible
  \<open>release(handle)\<close> that must not be called twice on the same handle.
  \<open>gbitmap_create_with_resource\<close> is \<open>acquire\<close>: it returns \<open>NULL\<close> for a refused
  request and a fresh bitmap otherwise. \<open>gbitmap_destroy\<close> is \<open>release\<close>.
\<close>

definition gbitmap_create_with_resource :: "int \<Rightarrow> app_state \<Rightarrow> nat option \<times> app_state" where
  "gbitmap_create_with_resource digit s =
     (let n = requests s in
      if n \<in> set (refused s)
      then (None, s\<lparr>requests := Suc n, trace := trace s @ [AcquireFailed digit]\<rparr>)
      else (Some n, s\<lparr>requests := Suc n, live_bitmaps := n # live_bitmaps s,
                       trace := trace s @ [Acquire digit n]\<rparr>))"

definition gbitmap_destroy :: "nat \<Rightarrow> app_state \<Rightarrow> fault + app_state" where
  "gbitmap_destroy h s =
     (if h \<in> set (live_bitmaps s)
      then Inr (s\<lparr>live_bitmaps := removeAll h (live_bitmaps s),
                  trace := trace s @ [Release h]\<rparr>)
      else Inl InvalidFree)"

text \<open>
  Modelled from the spec: \<open>bitmap_layer_create\<close> and \<open>bitmap_layer_destroy\<close> are the
  Display Surface's \<open>attach\<close> and \<open>detach\<close>, for which the spec names no failure.
  The frame of the layer (\<open>origin = ((slot % 2) * 72, (slot / 2) * 74)\<close>) and its place
  in the window's layer tree are not represented.
\<close>

definition bitmap_layer_create :: "app_state \<Rightarrow> nat \<times> app_state" where
  "bitmap_layer_create s =
     (let l = layers_made s in
      (l, s\<lparr>layers_made := Suc l, live_layers := l # live_layers s\<rparr>))"

definition bitmap_layer_destroy :: "nat \<Rightarrow> app_state \<Rightarrow> fault + app_state" where
  "bitmap_layer_destroy l s =
     (if l \<in> set (live_layers s)
      then Inr (s\<lparr>live_layers := removeAll l (live_layers s)\<rparr>)
      else Inl InvalidFree)"

subsection \<open>The slot operations\<close>

text \<open>
  \<open>load_digit_image_into_slot\<close>: the two range checks and the check that the slot is
  empty are the source's. On a \<open>NULL\<close> bitmap the source evaluates
  \<open>images[slot_number]->bounds.size\<close>, which dereferences \<open>NULL\<close>.
\<close>

definition load_digit_image_into_slot :: "int \<Rightarrow> int \<Rightarrow> app_state \<Rightarrow> fault + app_state" where
  "load_digit_image_into_slot slot_number digit_value s0 =
     (let s = s0\<lparr>trace := trace s0 @ [CallLoad slot_number digit_value]\<rparr> in
      if 0 \<le> slot_number \<and> slot_number < TOTAL_IMAGE_SLOTS then
        if 0 \<le> digit_value \<and> digit_value \<le> 9 then
          if image_slot_state s ! nat slot_number = EMPTY_SLOT then
            (case gbitmap_create_with_resource digit_value s of
               (None, s1) \<Rightarrow> Inl NullDeref
             | (Some h, s1) \<Rightarrow>
                 (let s2 = s1\<lparr>images := (images s1)[nat slot_number := Some h]\<rparr>;
                      (l, s3) = bitmap_layer_create s2;
                      s4 = s3\<lparr>image_layers := (image_layers s3)[nat slot_number := Some l]\<rparr>
                  in Inr (s4\<lparr>image_slot_state :=
                                (image_slot_state s4)[nat slot_number := digit_value]\<rparr>)))
          else Inr s
        else Inr s
      else Inr s)"

text \<open>
  \<open>unload_digit_image_from_slot\<close> has no range check: it indexes \<open>image_slot_state\<close>
  with whatever \<open>slot_number\<close> it is given.
\<close>

definition unload_digit_image_from_slot :: "int \<Rightarrow> app_state \<Rightarrow> fault + app_state" where
  "unload_digit_image_from_slot slot_number s0 =
     (let s = s0\<lparr>trace := trace s0 @ [CallUnload slot_number]\<rparr> in
      if \<not> (0 \<le> slot_number \<and> slot_number < TOTAL_IMAGE_SLOTS) then Inl OutOfBounds
      else if image_slot_state s ! nat slot_number \<noteq> EMPTY_SLOT then
        (case image_layers s ! nat slot_number of
           None \<Rightarrow> Inl NullDeref
         | Some l \<Rightarrow>
             and_then (bitmap_layer_destroy l s) (\<lambda>s1.
               (case images s1 ! nat slot_number of
                  None \<Rightarrow> Inl NullDeref
                | Some h \<Rightarrow>
                    and_then (gbitmap_destroy h s1) (\<lambda>s2.
                      Inr (s2\<lparr>image_slot_state :=
                                (image_slot_state s2)[nat slot_number := EMPTY_SLOT]\<rparr>)))))
      else Inr s)"

subsection \<open>The two-digit row renderer\<close>

text \<open>
  The body of the \<open>for\<close> loop of \<open>display_value\<close>, for one column. \<open>v\<close> is the value
  of the variable \<open>value\<close> at this iteration. \<open>value\<close> and \<open>row_number\<close> are
  \<open>unsigned short\<close>; \<open>slot_number\<close> and \<open>digit\<close> are computed in \<open>int\<close>, where
  \<open>row_number * 2 + col_number\<close> cannot overflow. With \<open>changed\<close> false the condition
  reads \<open>image_slot_state[slot_number]\<close>, again without a range check.
\<close>

definition display_value_column ::
    "int \<Rightarrow> 16 word \<Rightarrow> 16 word \<Rightarrow> bool \<Rightarrow> app_state \<Rightarrow> fault + app_state" where
  "display_value_column col_number v row_number changed s =
     (let slot_number = uint row_number * 2 + col_number;
          digit = uint (v mod 10)
      in
      and_then
        (if changed then Inr True
         else if 0 \<le> slot_number \<and> slot_number < TOTAL_IMAGE_SLOTS
         then Inr (digit \<noteq> image_slot_state s ! nat slot_number)
         else Inl OutOfBounds)
        (\<lambda>refresh.
           if refresh then
             and_then (unload_digit_image_from_slot slot_number s) (\<lambda>s1.
               if zero_prefix s1 \<or> digit \<noteq> 0 \<or> slot_number \<noteq> 0
               then load_digit_image_into_slot slot_number digit s1
               else Inr s1)
           else Inr s))"

function display_value_loop ::
    "int \<Rightarrow> 16 word \<Rightarrow> 16 word \<Rightarrow> bool \<Rightarrow> app_state \<Rightarrow> fault + app_state" where
  "display_value_loop col_number v row_number changed s =
     (if col_number \<ge> 0 then
        and_then (display_value_column col_number v row_number changed s)
          (display_value_loop (col_number - 1) (v div 10) row_number changed)
      else Inr s)"
  by pat_completeness auto
termination
  by (relation "measure (\<lambda>(c, v, r, ch, s). nat (c + 1))") auto

declare display_value_loop.simps [simp del]

definition display_value :: "16 word \<Rightarrow> 16 word \<Rightarrow> bool \<Rightarrow> app_state \<Rightarrow> fault + app_state" where
  "display_value v row_number changed s =
     display_value_loop 1 (v mod 100) row_number changed s"

text \<open>
  \<open>get_display_hour\<close>: \<open>clock_is_24h_style()\<close> is a platform query; its answer is the
  first argument.
\<close>

definition get_display_hour :: "bool \<Rightarrow> 16 word \<Rightarrow> 16 word" where
  "get_display_hour is_24h hour =
     (if is_24h then hour
      else (let display_hour = hour mod 12 in
            if display_hour \<noteq> 0 then display_hour else 12))"

text \<open>
  The slot loop of \<open>app_destroy\<close>: \<open>for (i = 0; i < TOTAL_IMAGE_SLOTS; i++)
  unload_digit_image_from_slot(i)\<close>. The other statements of \<open>app_destroy\<close>
  (unsubscribing services, destroying the text layer and the window) do not touch
  the slots.
\<close>

function app_destroy_loop :: "int \<Rightarrow> app_state \<Rightarrow> fault + app_state" where
  "app_destroy_loop i s =
     (if i < TOTAL_IMAGE_SLOTS then
        and_then (unload_digit_image_from_slot i s) (app_destroy_loop (i + 1))
      else Inr s)"
  by pat_completeness auto
termination
  by (relation "measure (\<lambda>(i, s). nat (TOTAL_IMAGE_SLOTS - i))") auto

declare app_destroy_loop.simps [simp del]

definition app_destroy :: "app_state \<Rightarrow> fault + app_state" where
  "app_destroy s = app_destroy_loop 0 s"

section \<open>Vocabulary of the properties\<close>

subsection \<open>Slots and the objects they hold\<close>

text \<open>
  Slot \<open>i\<close> holds an object when its pointer is not \<open>NULL\<close> and the object it
  points to is live. A pointer left behind by \<open>unload_digit_image_from_slot\<close> does
  not hold anything.
\<close>

definition holds :: "nat option list \<Rightarrow> nat list \<Rightarrow> nat \<Rightarrow> bool" where
  "holds ptrs live i = (case ptrs ! i of None \<Rightarrow> False | Some h \<Rightarrow> h \<in> set live)"

text \<open>
  \<open>owns st ptrs live made\<close>: the slot states \<open>st\<close>, one pointer array \<open>ptrs\<close> and
  the live objects of its kind agree. The arrays have four entries; every pointer
  was handed out earlier (\<open>< made\<close>); no two slots carry the same pointer; a slot is
  non-empty exactly when it holds a live object; every live object is held by a slot.
\<close>

definition owns :: "int list \<Rightarrow> nat option list \<Rightarrow> nat list \<Rightarrow> nat \<Rightarrow> bool" where
  "owns st ptrs live made \<longleftrightarrow>
     length st = 4 \<and> length ptrs = 4 \<and> distinct live
     \<and> (\<forall>i\<in>{0..<4}. case ptrs ! i of None \<Rightarrow> True | Some h \<Rightarrow> h < made)
     \<and> (\<forall>i\<in>{0..<4}. \<forall>j\<in>{0..<4}. ptrs ! i = ptrs ! j \<and> ptrs ! i \<noteq> None \<longrightarrow> i = j)
     \<and> (\<forall>i\<in>{0..<4}. (st ! i \<noteq> EMPTY_SLOT) = holds ptrs live i)
     \<and> (\<forall>h\<in>set live. \<exists>i\<in>{0..<4}. ptrs ! i = Some h)"

subsection \<open>Reading the trace\<close>

text \<open>
  The bitmaps acquired, the bitmaps released, and the calls of the two slot
  operations, each in the order of the trace.
\<close>

primrec acquired :: "event list \<Rightarrow> nat list" where
  "acquired [] = []"
| "acquired (e # es) = (case e of Acquire d h \<Rightarrow> h # acquired es | _ \<Rightarrow> acquired es)"

primrec released :: "event list \<Rightarrow> nat list" where
  "released [] = []"
| "released (e # es) = (case e of Release h \<Rightarrow> h # released es | _ \<Rightarrow> released es)"

primrec calls :: "event list \<Rightarrow> event list" where
  "calls [] = []"
| "calls (e # es) =
     (case e of CallLoad p d \<Rightarrow> e # calls es | CallUnload p \<Rightarrow> e # calls es | _ \<Rightarrow> calls es)"

text \<open>
  Every bitmap is acquired once and released at most once, and the bitmaps
  acquired so far are those released together with those still live.
\<close>

definition accounted :: "event list \<Rightarrow> nat list \<Rightarrow> nat \<Rightarrow> bool" where
  "accounted tr live made \<longleftrightarrow>
     distinct (acquired tr) \<and> distinct (released tr)
     \<and> set (acquired tr) = set (released tr) \<union> set live
     \<and> set (released tr) \<inter> set live = {}
     \<and> (\<forall>h\<in>set (acquired tr). h < made)"

definition cache_inv :: "app_state \<Rightarrow> bool" where
  "cache_inv s \<longleftrightarrow>
     owns (image_slot_state s) (images s) (live_bitmaps s) (requests s)
     \<and> owns (image_slot_state s) (image_layers s) (live_layers s) (layers_made s)
     \<and> accounted (trace s) (live_bitmaps s) (requests s)"

subsection \<open>What one column of a row does\<close>

text \<open>
  For the column at slot \<open>p\<close> that is to show digit \<open>d\<close>: the column is refreshed
  when \<open>changed\<close> is set or the slot does not already show \<open>d\<close>. A refreshed column
  is unloaded and then loaded, except that nothing is loaded when \<open>zero_prefix\<close> is
  off, \<open>d\<close> is 0 and \<open>p\<close> is slot 0. \<open>column_calls\<close> lists the calls this makes and
  \<open>column_shows\<close> is the slot state afterwards.
\<close>

definition column_calls :: "bool \<Rightarrow> app_state \<Rightarrow> int \<Rightarrow> int \<Rightarrow> event list" where
  "column_calls changed s p d =
     (if changed \<or> d \<noteq> image_slot_state s ! nat p then
        (if zero_prefix s \<or> d \<noteq> 0 \<or> p \<noteq> 0 then [CallUnload p, CallLoad p d]
         else [CallUnload p])
      else [])"

definition column_shows :: "bool \<Rightarrow> app_state \<Rightarrow> int \<Rightarrow> int \<Rightarrow> int" where
  "column_shows changed s p d =
     (if (changed \<or> d \<noteq> image_slot_state s ! nat p)
         \<and> \<not> (zero_prefix s \<or> d \<noteq> 0 \<or> p \<noteq> 0)
      then EMPTY_SLOT else d)"

text \<open>
  The digits \<open>display_value\<close> extracts from its argument: \<open>value % 10\<close> in the first
  iteration and, after \<open>value /= 10\<close>, \<open>value % 10\<close> again in the second, both after
  \<open>value %= 100\<close>.
\<close>

definition ones_digit :: "16 word \<Rightarrow> int" where
  "ones_digit v = uint (v mod 100 mod 10)"

definition tens_digit :: "16 word \<Rightarrow> int" where
  "tens_digit v = uint (v mod 100 div 10 mod 10)"

subsection \<open>Sequences of calls\<close>

text \<open>
  An observable point of the cache is the initial state or the state after a call
  that returned. \<open>Do_set_zero_prefix\<close> is the assignment to the global \<open>zero_prefix\<close>
  made by the settings callback.
\<close>

datatype op =
    Do_load int int
  | Do_unload int
  | Do_display_value "16 word" "16 word" bool
  | Do_set_zero_prefix bool
  | Do_app_destroy

primrec run_op :: "op \<Rightarrow> app_state \<Rightarrow> fault + app_state" where
  "run_op (Do_load p d) s = load_digit_image_into_slot p d s"
| "run_op (Do_unload p) s = unload_digit_image_from_slot p s"
| "run_op (Do_display_value v r c) s = display_value v r c s"
| "run_op (Do_set_zero_prefix b) s = Inr (s\<lparr>zero_prefix := b\<rparr>)"
| "run_op Do_app_destroy s = app_destroy s"

primrec run_ops :: "op list \<Rightarrow> app_state \<Rightarrow> fault + app_state" where
  "run_ops [] s = Inr s"
| "run_ops (x # xs) s = and_then (run_op x s) (run_ops xs)"

section \<open>Auxiliary facts\<close>

subsection \<open>Ownership under release and acquisition\<close>

lemma owns_release:
  assumes "owns st ptrs live made" "p < 4" "st ! p \<noteq> EMPTY_SLOT" "ptrs ! p = Some h"
  shows "owns (st[p := EMPTY_SLOT]) ptrs (removeAll h live) made"
  using assms unfolding owns_def holds_def
  apply (intro conjI)
  apply (simp_all add: distinct_removeAll)
  apply (auto simp: nth_list_update split: option.splits)
  done

lemma owns_acquire:
  assumes o: "owns st ptrs live made" and p: "p < 4"
    and e: "st ! p = EMPTY_SLOT" and d: "d \<noteq> EMPTY_SLOT"
  shows "owns (st[p := d]) (ptrs[p := Some made]) (made # live) (Suc made)"
proof -
  from o have len: "length st = 4" "length ptrs = 4" and dl: "distinct live"
    and bound: "\<And>i h. i < 4 \<Longrightarrow> ptrs ! i = Some h \<Longrightarrow> h < made"
    and inj: "\<And>i j. i < 4 \<Longrightarrow> j < 4 \<Longrightarrow> ptrs ! i = ptrs ! j \<Longrightarrow> ptrs ! i \<noteq> None \<Longrightarrow> i = j"
    and occ: "\<And>i. i < 4 \<Longrightarrow> (st ! i \<noteq> EMPTY_SLOT) = holds ptrs live i"
    and own: "\<And>h. h \<in> set live \<Longrightarrow> \<exists>i<4. ptrs ! i = Some h"
    unfolding owns_def by (simp_all add: Ball_def Bex_def split: option.splits)
  have fresh: "made \<notin> set live"
  proof
    assume "made \<in> set live"
    then obtain i where "i < 4" "ptrs ! i = Some made" using own by blast
    then have "made < made" by (rule bound)
    then show False by simp
  qed
  have at_p: "\<And>h. ptrs ! p = Some h \<Longrightarrow> h \<notin> set live"
    using occ [OF p] e by (simp add: holds_def)
  have c1: "\<forall>i\<in>{0..<4}. case ptrs[p := Some made] ! i of None \<Rightarrow> True | Some h \<Rightarrow> h < Suc made"
    using len p bound by (auto simp: nth_list_update less_Suc_eq split: option.splits if_splits)
  have c2: "\<forall>i\<in>{0..<4}. \<forall>j\<in>{0..<4}.
      ptrs[p := Some made] ! i = ptrs[p := Some made] ! j \<and> ptrs[p := Some made] ! i \<noteq> None
      \<longrightarrow> i = j"
  proof (intro ballI impI)
    fix i j :: nat assume ij: "i \<in> {0..<4}" "j \<in> {0..<4}"
      and eq: "ptrs[p := Some made] ! i = ptrs[p := Some made] ! j \<and> ptrs[p := Some made] ! i \<noteq> None"
    have ne: "\<And>k. k < 4 \<Longrightarrow> ptrs ! k \<noteq> Some made"
      using bound by fastforce
    show "i = j"
    proof (cases "i = p")
      case True
      with eq ij len p ne [of j] show ?thesis
        by (auto simp: nth_list_update split: if_splits)
    next
      case False
      show ?thesis
      proof (cases "j = p")
        case True
        with eq ij len p ne [of i] False show ?thesis
          by (auto simp: nth_list_update split: if_splits)
      next
        case jp: False
        have "ptrs[p := Some made] ! i = ptrs ! i" "ptrs[p := Some made] ! j = ptrs ! j"
          using False jp by simp_all
        with eq have "ptrs ! i = ptrs ! j" "ptrs ! i \<noteq> None"
          by metis+
        with ij show ?thesis using inj [of i j] by simp
      qed
    qed
  qed
  have c3: "\<forall>i\<in>{0..<4}. (st[p := d] ! i \<noteq> EMPTY_SLOT) = holds (ptrs[p := Some made]) (made # live) i"
  proof (intro ballI)
    fix i :: nat assume i: "i \<in> {0..<4}"
    show "(st[p := d] ! i \<noteq> EMPTY_SLOT) = holds (ptrs[p := Some made]) (made # live) i"
    proof (cases "i = p")
      case True
      with len p d show ?thesis by (simp add: holds_def)
    next
      case False
      have "ptrs ! i \<noteq> Some made" using bound [of i made] i by auto
      with False i len p occ [of i] show ?thesis
        by (auto simp: holds_def split: option.splits)
    qed
  qed
  have c4: "\<forall>h\<in>set (made # live). \<exists>i\<in>{0..<4}. ptrs[p := Some made] ! i = Some h"
  proof (intro ballI)
    fix h assume h: "h \<in> set (made # live)"
    show "\<exists>i\<in>{0..<4}. ptrs[p := Some made] ! i = Some h"
    proof (cases "h = made")
      case True
      with p len show ?thesis by (intro bexI [of _ p]) auto
    next
      case False
      with h have hl: "h \<in> set live" by simp
      then obtain i where i: "i < 4" "ptrs ! i = Some h" using own by blast
      with at_p hl have "i \<noteq> p" by auto
      with i len show ?thesis by (intro bexI [of _ i]) auto
    qed
  qed
  show ?thesis
    unfolding owns_def using len dl fresh c1 c2 c3 c4 by simp
qed

subsection \<open>The slot operations, case by case\<close>

lemma acquired_append [simp]: "acquired (xs @ ys) = acquired xs @ acquired ys"
  by (induction xs) (auto split: event.splits)

lemma released_append [simp]: "released (xs @ ys) = released xs @ released ys"
  by (induction xs) (auto split: event.splits)

lemma calls_append [simp]: "calls (xs @ ys) = calls xs @ calls ys"
  by (induction xs) (auto split: event.splits)

lemma load_invalid:
  "\<not> (0 \<le> p \<and> p < 4 \<and> 0 \<le> d \<and> d \<le> 9) \<Longrightarrow>
   load_digit_image_into_slot p d s = Inr (s\<lparr>trace := trace s @ [CallLoad p d]\<rparr>)"
  by (auto simp: load_digit_image_into_slot_def TOTAL_IMAGE_SLOTS_def Let_def)

lemma load_occupied:
  "image_slot_state s ! nat p \<noteq> EMPTY_SLOT \<Longrightarrow>
   load_digit_image_into_slot p d s = Inr (s\<lparr>trace := trace s @ [CallLoad p d]\<rparr>)"
  by (auto simp: load_digit_image_into_slot_def TOTAL_IMAGE_SLOTS_def Let_def)

lemma load_refused:
  "0 \<le> p \<Longrightarrow> p < 4 \<Longrightarrow> 0 \<le> d \<Longrightarrow> d \<le> 9 \<Longrightarrow> image_slot_state s ! nat p = EMPTY_SLOT \<Longrightarrow>
   requests s \<in> set (refused s) \<Longrightarrow>
   load_digit_image_into_slot p d s = Inl NullDeref"
  by (simp add: load_digit_image_into_slot_def TOTAL_IMAGE_SLOTS_def Let_def
      gbitmap_create_with_resource_def)

lemma load_granted:
  "0 \<le> p \<Longrightarrow> p < 4 \<Longrightarrow> 0 \<le> d \<Longrightarrow> d \<le> 9 \<Longrightarrow> image_slot_state s ! nat p = EMPTY_SLOT \<Longrightarrow>
   requests s \<notin> set (refused s) \<Longrightarrow>
   load_digit_image_into_slot p d s =
     Inr (s\<lparr>image_slot_state := (image_slot_state s)[nat p := d],
             images := (images s)[nat p := Some (requests s)],
             image_layers := (image_layers s)[nat p := Some (layers_made s)],
             requests := Suc (requests s),
             live_bitmaps := requests s # live_bitmaps s,
             layers_made := Suc (layers_made s),
             live_layers := layers_made s # live_layers s,
             trace := trace s @ [CallLoad p d, Acquire d (requests s)]\<rparr>)"
  by (simp add: load_digit_image_into_slot_def TOTAL_IMAGE_SLOTS_def Let_def
      gbitmap_create_with_resource_def bitmap_layer_create_def)

lemma unload_out_of_range:
  "\<not> (0 \<le> p \<and> p < 4) \<Longrightarrow> unload_digit_image_from_slot p s = Inl OutOfBounds"
  by (auto simp: unload_digit_image_from_slot_def TOTAL_IMAGE_SLOTS_def Let_def)

lemma unload_empty:
  "0 \<le> p \<Longrightarrow> p < 4 \<Longrightarrow> image_slot_state s ! nat p = EMPTY_SLOT \<Longrightarrow>
   unload_digit_image_from_slot p s = Inr (s\<lparr>trace := trace s @ [CallUnload p]\<rparr>)"
  by (simp add: unload_digit_image_from_slot_def TOTAL_IMAGE_SLOTS_def Let_def)

lemma unload_occupied:
  "0 \<le> p \<Longrightarrow> p < 4 \<Longrightarrow> image_slot_state s ! nat p \<noteq> EMPTY_SLOT \<Longrightarrow>
   images s ! nat p = Some h \<Longrightarrow> h \<in> set (live_bitmaps s) \<Longrightarrow>
   image_layers s ! nat p = Some l \<Longrightarrow> l \<in> set (live_layers s) \<Longrightarrow>
   unload_digit_image_from_slot p s =
     Inr (s\<lparr>image_slot_state := (image_slot_state s)[nat p := EMPTY_SLOT],
             live_bitmaps := removeAll h (live_bitmaps s),
             live_layers := removeAll l (live_layers s),
             trace := trace s @ [CallUnload p, Release h]\<rparr>)"
  by (simp add: unload_digit_image_from_slot_def TOTAL_IMAGE_SLOTS_def Let_def
      and_then_def bitmap_layer_destroy_def gbitmap_destroy_def)

subsection \<open>The invariant is preserved\<close>

text \<open>
  \<open>cache_inv\<close> holds in the initial state and after every call of a slot operation
  that returns.
\<close>

lemma owns_holds:
  "owns st ptrs live made \<Longrightarrow> i < 4 \<Longrightarrow> st ! i \<noteq> EMPTY_SLOT \<Longrightarrow>
   \<exists>h. ptrs ! i = Some h \<and> h \<in> set live"
  by (auto simp: owns_def holds_def split: option.splits)

lemma owns_fresh: "owns st ptrs live made \<Longrightarrow> made \<notin> set live"
  by (fastforce simp: owns_def split: option.splits)

lemma accounted_acquire:
  "accounted tr live made \<Longrightarrow> made \<notin> set live \<Longrightarrow>
   accounted (tr @ es @ [Acquire d made]) (made # live) (Suc made)" if "acquired es = []" "released es = []"
  using that by (fastforce simp: accounted_def less_Suc_eq)

lemma accounted_release:
  "accounted tr live made \<Longrightarrow> h \<in> set live \<Longrightarrow>
   accounted (tr @ es @ [Release h]) (removeAll h live) made" if "acquired es = []" "released es = []"
  using that by (fastforce simp: accounted_def)

lemma accounted_call:
  "accounted tr live made \<Longrightarrow> acquired es = [] \<Longrightarrow> released es = [] \<Longrightarrow>
   accounted (tr @ es) live made"
  by (simp add: accounted_def)

lemma slots_0_to_3: "{0..<4::nat} = {0, 1, 2, 3}"
  by auto

lemma inv_initial_state: "cache_inv (initial_state rs)"
  by (simp add: cache_inv_def owns_def holds_def accounted_def initial_state_def EMPTY_SLOT_def
      slots_0_to_3)

lemma inv_trace_append:
  "cache_inv s \<Longrightarrow> acquired es = [] \<Longrightarrow> released es = [] \<Longrightarrow> cache_inv (s\<lparr>trace := trace s @ es\<rparr>)"
  by (simp add: cache_inv_def accounted_def)

lemma inv_zero_prefix: "cache_inv s \<Longrightarrow> cache_inv (s\<lparr>zero_prefix := b\<rparr>)"
  by (simp add: cache_inv_def)

lemma inv_lengths:
  "cache_inv s \<Longrightarrow> length (image_slot_state s) = 4 \<and> length (images s) = 4
     \<and> length (image_layers s) = 4"
  by (simp add: cache_inv_def owns_def)

lemma inv_load:
  assumes w: "cache_inv s" and r: "load_digit_image_into_slot p d s = Inr s'"
  shows "cache_inv s'"
proof (cases "0 \<le> p \<and> p < 4 \<and> 0 \<le> d \<and> d \<le> 9")
  case False
  with r w show ?thesis
    by (auto simp: load_invalid intro: inv_trace_append)
next
  case valid: True
  show ?thesis
  proof (cases "image_slot_state s ! nat p = EMPTY_SLOT")
    case False
    with r w show ?thesis
      by (auto simp: load_occupied intro: inv_trace_append)
  next
    case empty: True
    show ?thesis
    proof (cases "requests s \<in> set (refused s)")
      case True
      with valid empty r show ?thesis by (simp add: load_refused)
    next
      case False
      from valid have np: "nat p < 4" and dne: "d \<noteq> EMPTY_SLOT"
        by (auto simp: EMPTY_SLOT_def)
      from w have ob: "owns (image_slot_state s) (images s) (live_bitmaps s) (requests s)"
        and ol: "owns (image_slot_state s) (image_layers s) (live_layers s) (layers_made s)"
        and ac: "accounted (trace s) (live_bitmaps s) (requests s)"
        by (simp_all add: cache_inv_def)
      have ac': "accounted (trace s @ [CallLoad p d] @ [Acquire d (requests s)])
                   (requests s # live_bitmaps s) (Suc (requests s))"
        by (rule accounted_acquire [OF _ _ ac owns_fresh [OF ob]]) simp_all
      from valid empty False r
      have s': "s' = s\<lparr>image_slot_state := (image_slot_state s)[nat p := d],
             images := (images s)[nat p := Some (requests s)],
             image_layers := (image_layers s)[nat p := Some (layers_made s)],
             requests := Suc (requests s),
             live_bitmaps := requests s # live_bitmaps s,
             layers_made := Suc (layers_made s),
             live_layers := layers_made s # live_layers s,
             trace := trace s @ [CallLoad p d, Acquire d (requests s)]\<rparr>"
        by (simp add: load_granted)
      show ?thesis
        unfolding s' cache_inv_def
        using owns_acquire [OF ob np empty dne] owns_acquire [OF ol np empty dne] ac'
        by simp
    qed
  qed
qed

lemma inv_unload_occupied:
  assumes w: "cache_inv s" and p: "0 \<le> p" "p < 4" and occ: "image_slot_state s ! nat p \<noteq> EMPTY_SLOT"
  obtains h l where "images s ! nat p = Some h" "h \<in> set (live_bitmaps s)"
    "image_layers s ! nat p = Some l" "l \<in> set (live_layers s)"
    "unload_digit_image_from_slot p s =
       Inr (s\<lparr>image_slot_state := (image_slot_state s)[nat p := EMPTY_SLOT],
               live_bitmaps := removeAll h (live_bitmaps s),
               live_layers := removeAll l (live_layers s),
               trace := trace s @ [CallUnload p, Release h]\<rparr>)"
    "cache_inv (s\<lparr>image_slot_state := (image_slot_state s)[nat p := EMPTY_SLOT],
               live_bitmaps := removeAll h (live_bitmaps s),
               live_layers := removeAll l (live_layers s),
               trace := trace s @ [CallUnload p, Release h]\<rparr>)"
proof -
  from p have np: "nat p < 4" by simp
  from w have ob: "owns (image_slot_state s) (images s) (live_bitmaps s) (requests s)"
    and ol: "owns (image_slot_state s) (image_layers s) (live_layers s) (layers_made s)"
    and ac: "accounted (trace s) (live_bitmaps s) (requests s)"
    by (simp_all add: cache_inv_def)
  from owns_holds [OF ob np occ] obtain h
    where h: "images s ! nat p = Some h" "h \<in> set (live_bitmaps s)" by blast
  from owns_holds [OF ol np occ] obtain l
    where l: "image_layers s ! nat p = Some l" "l \<in> set (live_layers s)" by blast
  have ac': "accounted (trace s @ [CallUnload p] @ [Release h])
               (removeAll h (live_bitmaps s)) (requests s)"
    by (rule accounted_release [OF _ _ ac h(2)]) simp_all
  have "cache_inv (s\<lparr>image_slot_state := (image_slot_state s)[nat p := EMPTY_SLOT],
               live_bitmaps := removeAll h (live_bitmaps s),
               live_layers := removeAll l (live_layers s),
               trace := trace s @ [CallUnload p, Release h]\<rparr>)"
    unfolding cache_inv_def
    using owns_release [OF ob np occ h(1)] owns_release [OF ol np occ l(1)] ac'
    by simp
  with h l show thesis
    using unload_occupied [OF p occ h l] that by blast
qed

lemma inv_unload:
  assumes w: "cache_inv s" and r: "unload_digit_image_from_slot p s = Inr s'"
  shows "cache_inv s'"
proof (cases "0 \<le> p \<and> p < 4")
  case False
  with r show ?thesis by (simp add: unload_out_of_range)
next
  case True
  then have p: "0 \<le> p" "p < 4" by simp_all
  show ?thesis
  proof (cases "image_slot_state s ! nat p = EMPTY_SLOT")
    case True
    with p r w show ?thesis
      by (auto simp: unload_empty intro: inv_trace_append)
  next
    case False
    from inv_unload_occupied [OF w p False] r show ?thesis
      by (metis Inr_inject)
  qed
qed

lemma unload_returns:
  assumes w: "cache_inv s" and p: "0 \<le> p" "p < 4"
  shows "\<exists>s'. unload_digit_image_from_slot p s = Inr s'"
proof (cases "image_slot_state s ! nat p = EMPTY_SLOT")
  case True
  with p show ?thesis by (simp add: unload_empty)
next
  case False
  from inv_unload_occupied [OF w p False] show ?thesis by metis
qed

subsection \<open>One column\<close>

lemma digit_range: "0 \<le> uint ((v :: 16 word) mod 10) \<and> uint (v mod 10) \<le> 9"
  by (simp add: uint_mod)

lemma row_cases: "(r :: 16 word) < 2 \<Longrightarrow> uint r = 0 \<or> uint r = 1"
proof -
  assume "r < 2"
  then have "uint r < 2" by (simp add: word_less_alt)
  moreover have "0 \<le> uint r" by simp
  ultimately show ?thesis by arith
qed

lemma unload_effect:
  assumes w: "cache_inv s" and p: "0 \<le> p" "p < 4"
    and r: "unload_digit_image_from_slot p s = Inr s1"
  shows "cache_inv s1
    \<and> image_slot_state s1 = (image_slot_state s)[nat p := EMPTY_SLOT]
    \<and> images s1 = images s \<and> image_layers s1 = image_layers s
    \<and> zero_prefix s1 = zero_prefix s \<and> refused s1 = refused s
    \<and> requests s1 = requests s
    \<and> calls (trace s1) = calls (trace s) @ [CallUnload p]
    \<and> acquired (trace s1) = acquired (trace s)"
proof (cases "image_slot_state s ! nat p = EMPTY_SLOT")
  case True
  with p r have "s1 = s\<lparr>trace := trace s @ [CallUnload p]\<rparr>"
    by (simp add: unload_empty)
  moreover have "(image_slot_state s)[nat p := EMPTY_SLOT] = image_slot_state s"
    using True by (metis list_update_id)
  ultimately show ?thesis
    using w by (simp add: inv_trace_append)
next
  case False
  from w p False obtain h l where
    "unload_digit_image_from_slot p s =
       Inr (s\<lparr>image_slot_state := (image_slot_state s)[nat p := EMPTY_SLOT],
               live_bitmaps := removeAll h (live_bitmaps s),
               live_layers := removeAll l (live_layers s),
               trace := trace s @ [CallUnload p, Release h]\<rparr>)"
    "cache_inv (s\<lparr>image_slot_state := (image_slot_state s)[nat p := EMPTY_SLOT],
               live_bitmaps := removeAll h (live_bitmaps s),
               live_layers := removeAll l (live_layers s),
               trace := trace s @ [CallUnload p, Release h]\<rparr>)"
    by (rule inv_unload_occupied)
  with r show ?thesis by auto
qed

lemma load_effect:
  assumes p: "0 \<le> p" "p < 4" and d: "0 \<le> d" "d \<le> 9"
    and e: "image_slot_state s ! nat p = EMPTY_SLOT"
    and r: "load_digit_image_into_slot p d s = Inr s2"
  shows "image_slot_state s2 = (image_slot_state s)[nat p := d]
    \<and> images s2 = (images s)[nat p := Some (requests s)]
    \<and> image_layers s2 = (image_layers s)[nat p := Some (layers_made s)]
    \<and> zero_prefix s2 = zero_prefix s \<and> refused s2 = refused s
    \<and> requests s2 = Suc (requests s)
    \<and> calls (trace s2) = calls (trace s) @ [CallLoad p d]
    \<and> acquired (trace s2) = acquired (trace s) @ [requests s]"
proof (cases "requests s \<in> set (refused s)")
  case True
  with p d e r show ?thesis by (simp add: load_refused)
next
  case False
  with p d e r show ?thesis by (auto simp: load_granted)
qed


lemma display_value_column_effect:
  assumes w: "cache_inv s"
    and p: "0 \<le> uint r * 2 + col" "uint r * 2 + col < 4"
    and res: "display_value_column col v r changed s = Inr s'"
  shows "cache_inv s'
    \<and> zero_prefix s' = zero_prefix s \<and> refused s' = refused s
    \<and> requests s \<le> requests s' \<and> requests s' \<le> Suc (requests s)
    \<and> image_slot_state s' =
        (image_slot_state s)[nat (uint r * 2 + col) :=
           column_shows changed s (uint r * 2 + col) (uint (v mod 10))]
    \<and> (\<forall>i. i \<noteq> nat (uint r * 2 + col) \<longrightarrow>
          images s' ! i = images s ! i \<and> image_layers s' ! i = image_layers s ! i)
    \<and> calls (trace s') =
        calls (trace s) @ column_calls changed s (uint r * 2 + col) (uint (v mod 10))
    \<and> (\<not> (changed \<or> uint (v mod 10) \<noteq> image_slot_state s ! nat (uint r * 2 + col))
        \<longrightarrow> s' = s)"
proof -
  define q where "q = uint r * 2 + col"
  define d where "d = uint (v mod 10)"
  have d: "0 \<le> d" "d \<le> 9" using digit_range [of v] by (simp_all add: d_def)
  have q: "0 \<le> q" "q < 4" using p by (simp_all add: q_def)
  have len: "length (image_slot_state s) = 4" using w by (simp add: inv_lengths)
  show ?thesis
  proof (cases "changed \<or> d \<noteq> image_slot_state s ! nat q")
    case False
    with res q have "s' = s"
      by (auto simp: display_value_column_def Let_def and_then_def q_def d_def
          TOTAL_IMAGE_SLOTS_def split: if_splits)
    with False w show ?thesis
      unfolding q_def [symmetric] d_def [symmetric]
      by (simp add: column_calls_def column_shows_def)
  next
    case True
    with res q obtain s1 where u: "unload_digit_image_from_slot q s = Inr s1"
      and rest: "(if zero_prefix s1 \<or> d \<noteq> 0 \<or> q \<noteq> 0
                  then load_digit_image_into_slot q d s1 else Inr s1) = Inr s'"
      by (auto simp: display_value_column_def Let_def and_then_def q_def d_def
          TOTAL_IMAGE_SLOTS_def split: if_splits sum.splits)
    note ue = unload_effect [OF w q u]
    show ?thesis
    proof (cases "zero_prefix s \<or> d \<noteq> 0 \<or> q \<noteq> 0")
      case False
      with rest ue have "s' = s1" by auto
      with ue True False show ?thesis
        unfolding q_def [symmetric] d_def [symmetric]
        by (simp add: column_calls_def column_shows_def)
    next
      case blank: True
      with rest ue have l: "load_digit_image_into_slot q d s1 = Inr s'" by auto
      have e1: "image_slot_state s1 ! nat q = EMPTY_SLOT"
        using ue len q by simp
      note le = load_effect [OF q d e1 l]
      have "cache_inv s'" using ue l by (blast intro: inv_load)
      with ue le True blank show ?thesis
        unfolding q_def [symmetric] d_def [symmetric]
        by (simp add: column_calls_def column_shows_def)
    qed
  qed
qed

subsection \<open>A row\<close>

text \<open>
  The loop of \<open>display_value\<close> runs its body for column 1 and then for column 0.
\<close>

lemma and_then_Inr [simp]: "and_then (Inr x) f = f x"
  by (simp add: and_then_def)

lemma and_then_Inl [simp]: "and_then (Inl e) f = Inl e"
  by (simp add: and_then_def)

lemma and_then_eq_Inr:
  "and_then r f = Inr y \<longleftrightarrow> (\<exists>x. r = Inr x \<and> f x = Inr y)"
  by (cases r) simp_all

lemma display_value_unfold:
  "display_value v r c s =
     and_then (display_value_column 1 (v mod 100) r c s)
       (display_value_column 0 (v mod 100 div 10) r c)"
proof -
  have last: "display_value_loop (- 1) w r c t = Inr t" for w t
    by (subst display_value_loop.simps) simp
  have "display_value_loop 0 w r c t = display_value_column 0 w r c t" for w t
    by (subst display_value_loop.simps) (simp add: last and_then_def split: sum.splits)
  then have "display_value_loop (1 - 1) w r c = display_value_column 0 w r c" for w
    by auto
  then show ?thesis
    unfolding display_value_def by (subst display_value_loop.simps) simp
qed

lemma ones_digit_eq: "ones_digit v = uint v mod 100 mod 10"
  by (simp add: ones_digit_def uint_mod)

lemma tens_digit_eq: "tens_digit v = uint v mod 100 div 10"
  by (simp add: tens_digit_def uint_mod uint_div)

lemma display_value_effect:
  assumes w: "cache_inv s" and r: "r < 2"
    and res: "display_value v r c s = Inr s'"
  shows "cache_inv s'
    \<and> zero_prefix s' = zero_prefix s \<and> refused s' = refused s
    \<and> requests s \<le> requests s' \<and> requests s' \<le> requests s + 2
    \<and> image_slot_state s' =
        (image_slot_state s)
          [nat (uint r * 2 + 1) := column_shows c s (uint r * 2 + 1) (ones_digit v),
           nat (uint r * 2) := column_shows c s (uint r * 2) (tens_digit v)]
    \<and> (\<forall>i. i \<noteq> nat (uint r * 2 + 1) \<and> i \<noteq> nat (uint r * 2) \<longrightarrow>
          images s' ! i = images s ! i \<and> image_layers s' ! i = image_layers s ! i)
    \<and> calls (trace s') =
        calls (trace s) @ column_calls c s (uint r * 2 + 1) (ones_digit v)
          @ column_calls c s (uint r * 2) (tens_digit v)"
proof -
  from res obtain s1 where
    c1: "display_value_column 1 (v mod 100) r c s = Inr s1" and
    c0: "display_value_column 0 (v mod 100 div 10) r c s1 = Inr s'"
    by (auto simp: display_value_unfold and_then_eq_Inr)
  from row_cases [OF r] have p1: "0 \<le> uint r * 2 + 1" "uint r * 2 + 1 < 4"
    and p0: "0 \<le> uint r * 2 + 0" "uint r * 2 + 0 < 4" by auto
  note e1 = display_value_column_effect [OF w p1 c1]
  then have w1: "cache_inv s1" by simp
  note e0 = display_value_column_effect [OF w1 p0 c0]
  have len: "length (image_slot_state s) = 4" using w by (simp add: inv_lengths)
  have same: "image_slot_state s1 ! nat (uint r * 2) = image_slot_state s ! nat (uint r * 2)"
    using e1 row_cases [OF r] len by auto
  have cs: "column_shows c s1 (uint r * 2) d = column_shows c s (uint r * 2) d" for d
    using e1 same by (simp add: column_shows_def)
  have cc: "column_calls c s1 (uint r * 2) d = column_calls c s (uint r * 2) d" for d
    using e1 same by (simp add: column_calls_def)
  from e1 e0 show ?thesis
    by (simp add: cs cc ones_digit_def tens_digit_def)
qed



lemma display_value_bad_row:
  assumes "\<not> r < 2"
  shows "display_value v r c s = Inl OutOfBounds"
proof -
  from assms have "2 \<le> uint r" by (simp add: word_less_alt)
  then have "\<not> (0 \<le> uint r * 2 + 1 \<and> uint r * 2 + 1 < 4)" by simp
  then show ?thesis
    by (simp add: display_value_unfold display_value_column_def Let_def
        TOTAL_IMAGE_SLOTS_def unload_out_of_range)
qed

lemma inv_display_value:
  "cache_inv s \<Longrightarrow> display_value v r c s = Inr s' \<Longrightarrow> cache_inv s'"
  by (cases "r < 2") (simp_all add: display_value_effect display_value_bad_row)

subsection \<open>Teardown and sequences of calls\<close>

lemma app_destroy_unfold:
  "app_destroy s =
     and_then (unload_digit_image_from_slot 0 s) (\<lambda>s0.
     and_then (unload_digit_image_from_slot 1 s0) (\<lambda>s1.
     and_then (unload_digit_image_from_slot 2 s1) (\<lambda>s2.
     unload_digit_image_from_slot 3 s2)))"
proof -
  have l4: "app_destroy_loop 4 t = Inr t" for t
    by (subst app_destroy_loop.simps) (simp add: TOTAL_IMAGE_SLOTS_def)
  have l3: "app_destroy_loop 3 t = unload_digit_image_from_slot 3 t" for t
    by (subst app_destroy_loop.simps)
      (simp add: TOTAL_IMAGE_SLOTS_def l4 and_then_def split: sum.splits)
  have l2: "app_destroy_loop 2 t =
      and_then (unload_digit_image_from_slot 2 t) (unload_digit_image_from_slot 3)" for t
    by (subst app_destroy_loop.simps) (simp add: TOTAL_IMAGE_SLOTS_def l3 [abs_def])
  have l1: "app_destroy_loop 1 t =
      and_then (unload_digit_image_from_slot 1 t) (\<lambda>s1.
      and_then (unload_digit_image_from_slot 2 s1) (unload_digit_image_from_slot 3))" for t
    by (subst app_destroy_loop.simps) (simp add: TOTAL_IMAGE_SLOTS_def l2 [abs_def])
  show ?thesis
    unfolding app_destroy_def
    by (subst app_destroy_loop.simps) (simp add: TOTAL_IMAGE_SLOTS_def l1 [abs_def])
qed

lemma app_destroy_effect:
  assumes w: "cache_inv s"
  shows "\<exists>s'. app_destroy s = Inr s' \<and> cache_inv s'
    \<and> image_slot_state s' = [EMPTY_SLOT, EMPTY_SLOT, EMPTY_SLOT, EMPTY_SLOT]
    \<and> calls (trace s') =
        calls (trace s) @ [CallUnload 0, CallUnload 1, CallUnload 2, CallUnload 3]
    \<and> acquired (trace s') = acquired (trace s)"
proof -
  from unload_returns [OF w, of 0] obtain s0
    where u0: "unload_digit_image_from_slot 0 s = Inr s0" by auto
  have e0: "cache_inv s0
    \<and> image_slot_state s0 = (image_slot_state s)[nat 0 := EMPTY_SLOT]
    \<and> calls (trace s0) = calls (trace s) @ [CallUnload 0]
    \<and> acquired (trace s0) = acquired (trace s)"
    using unload_effect [OF w _ _ u0] by simp
  from unload_returns [of s0 1] e0 obtain s1
    where u1: "unload_digit_image_from_slot 1 s0 = Inr s1" by auto
  have e1: "cache_inv s1
    \<and> image_slot_state s1 = (image_slot_state s0)[nat 1 := EMPTY_SLOT]
    \<and> calls (trace s1) = calls (trace s0) @ [CallUnload 1]
    \<and> acquired (trace s1) = acquired (trace s0)"
    using unload_effect [OF _ _ _ u1] e0 by simp
  from unload_returns [of s1 2] e1 obtain s2
    where u2: "unload_digit_image_from_slot 2 s1 = Inr s2" by auto
  have e2: "cache_inv s2
    \<and> image_slot_state s2 = (image_slot_state s1)[nat 2 := EMPTY_SLOT]
    \<and> calls (trace s2) = calls (trace s1) @ [CallUnload 2]
    \<and> acquired (trace s2) = acquired (trace s1)"
    using unload_effect [OF _ _ _ u2] e1 by simp
  from unload_returns [of s2 3] e2 obtain s3
    where u3: "unload_digit_image_from_slot 3 s2 = Inr s3" by auto
  have e3: "cache_inv s3
    \<and> image_slot_state s3 = (image_slot_state s2)[nat 3 := EMPTY_SLOT]
    \<and> calls (trace s3) = calls (trace s2) @ [CallUnload 3]
    \<and> acquired (trace s3) = acquired (trace s2)"
    using unload_effect [OF _ _ _ u3] e2 by simp
  have len: "length (image_slot_state s) = 4" using w by (simp add: inv_lengths)
  then obtain a b c d where abcd: "image_slot_state s = [a, b, c, d]"
    by (auto simp: length_Suc_conv numeral_eq_Suc)
  have "image_slot_state s3 = [EMPTY_SLOT, EMPTY_SLOT, EMPTY_SLOT, EMPTY_SLOT]"
    using e0 e1 e2 e3 abcd by (simp add: numeral_eq_Suc)
  with u0 u1 u2 u3 e0 e1 e2 e3 show ?thesis
    by (simp add: app_destroy_unfold)
qed

lemma inv_app_destroy: "cache_inv s \<Longrightarrow> app_destroy s = Inr s' \<Longrightarrow> cache_inv s'"
  using app_destroy_effect [of s] by auto

lemma inv_run_op: "cache_inv s \<Longrightarrow> run_op x s = Inr s' \<Longrightarrow> cache_inv s'"
  by (cases x) (auto intro: inv_load inv_unload inv_display_value inv_app_destroy inv_zero_prefix)

lemma inv_run_ops: "cache_inv s \<Longrightarrow> run_ops xs s = Inr s' \<Longrightarrow> cache_inv s'"
proof (induction xs arbitrary: s)
  case Nil
  then show ?case by simp
next
  case (Cons x xs)
  from Cons.prems(2) obtain t where t: "run_op x s = Inr t" "run_ops xs t = Inr s'"
    by (auto simp: and_then_eq_Inr)
  from inv_run_op [OF Cons.prems(1) t(1)] have "cache_inv t" .
  from Cons.IH [OF this t(2)] show ?case .
qed

lemmas eval_simps = run_ops.simps run_op.simps display_value_unfold display_value_column_def
  load_digit_image_into_slot_def unload_digit_image_from_slot_def Let_def
  gbitmap_create_with_resource_def gbitmap_destroy_def bitmap_layer_create_def
  bitmap_layer_destroy_def initial_state_def TOTAL_IMAGE_SLOTS_def EMPTY_SLOT_def
  app_destroy_unfold

lemma owns_slot:
  "owns st ptrs live made \<Longrightarrow> i < 4 \<Longrightarrow> (st ! i \<noteq> EMPTY_SLOT) = holds ptrs live i"
  by (simp add: owns_def)

lemma owns_all_empty:
  assumes o: "owns st ptrs live made" and e: "st = [EMPTY_SLOT, EMPTY_SLOT, EMPTY_SLOT, EMPTY_SLOT]"
  shows "live = []"
proof (rule ccontr)
  assume "live \<noteq> []"
  then obtain h where h: "h \<in> set live" by (cases live) auto
  with o obtain i where i: "i < 4" "ptrs ! i = Some h"
    by (auto simp: owns_def)
  then have "holds ptrs live i" using h by (simp add: holds_def)
  with owns_slot [OF o i(1)] have "st ! i \<noteq> EMPTY_SLOT" by simp
  moreover from i(1) have "i = 0 \<or> i = 1 \<or> i = 2 \<or> i = 3" by arith
  ultimately show False using e by auto
qed

lemma accounted_no_live:
  assumes "accounted tr [] made"
  shows "length (released tr) = length (acquired tr) \<and> set (released tr) = set (acquired tr)
     \<and> distinct (released tr) \<and> distinct (acquired tr)"
proof -
  from assms have d: "distinct (acquired tr)" "distinct (released tr)"
    and s: "set (acquired tr) = set (released tr)"
    by (simp_all add: accounted_def)
  from d s have "length (released tr) = length (acquired tr)"
    by (metis distinct_card)
  with d s show ?thesis by simp
qed


lemma display_value_shows:
  assumes w: "cache_inv s" and r: "r < 2" and res: "display_value v r c s = Inr s'"
  shows "image_slot_state s' ! nat (uint r * 2 + 1) = ones_digit v
     \<and> image_slot_state s' ! nat (uint r * 2) = column_shows c s (uint r * 2) (tens_digit v)"
proof -
  have len: "length (image_slot_state s) = 4" using w by (simp add: inv_lengths)
  from display_value_effect [OF w r res]
  have st: "image_slot_state s' =
        (image_slot_state s)
          [nat (uint r * 2 + 1) := column_shows c s (uint r * 2 + 1) (ones_digit v),
           nat (uint r * 2) := column_shows c s (uint r * 2) (tens_digit v)]"
    by simp
  have "column_shows c s (uint r * 2 + 1) (ones_digit v) = ones_digit v"
    using row_cases [OF r] by (auto simp: column_shows_def)
  with st len row_cases [OF r] show ?thesis by auto
qed

lemma display_value_untouched:
  assumes w: "cache_inv s" and r: "r < 2"
    and res: "display_value v r False s = Inr s'"
  shows "(image_slot_state s ! nat (uint r * 2 + 1) = ones_digit v \<longrightarrow>
            images s' ! nat (uint r * 2 + 1) = images s ! nat (uint r * 2 + 1)
          \<and> image_layers s' ! nat (uint r * 2 + 1) = image_layers s ! nat (uint r * 2 + 1))
       \<and> (image_slot_state s ! nat (uint r * 2) = tens_digit v \<longrightarrow>
            images s' ! nat (uint r * 2) = images s ! nat (uint r * 2)
          \<and> image_layers s' ! nat (uint r * 2) = image_layers s ! nat (uint r * 2))"
proof -
  from res obtain s1 where
    c1: "display_value_column 1 (v mod 100) r False s = Inr s1" and
    c0: "display_value_column 0 (v mod 100 div 10) r False s1 = Inr s'"
    by (auto simp: display_value_unfold and_then_eq_Inr)
  from row_cases [OF r] have p1: "0 \<le> uint r * 2 + 1" "uint r * 2 + 1 < 4"
    and p0: "0 \<le> uint r * 2 + 0" "uint r * 2 + 0 < 4" by auto
  note e1 = display_value_column_effect [OF w p1 c1]
  then have w1: "cache_inv s1" by simp
  note e0 = display_value_column_effect [OF w1 p0 c0]
  have len: "length (image_slot_state s) = 4" using w by (simp add: inv_lengths)
  have ne: "nat (uint r * 2 + 1) \<noteq> nat (uint r * 2)"
    using row_cases [OF r] by auto
  have same: "image_slot_state s1 ! nat (uint r * 2) = image_slot_state s ! nat (uint r * 2)"
    using e1 ne by simp
  have a: "images s' ! nat (uint r * 2 + 1) = images s ! nat (uint r * 2 + 1)
          \<and> image_layers s' ! nat (uint r * 2 + 1) = image_layers s ! nat (uint r * 2 + 1)"
    if "image_slot_state s ! nat (uint r * 2 + 1) = ones_digit v"
  proof -
    from that e1 have "s1 = s" by (simp add: ones_digit_def)
    with e0 ne show ?thesis by simp
  qed
  have b: "images s' ! nat (uint r * 2) = images s ! nat (uint r * 2)
          \<and> image_layers s' ! nat (uint r * 2) = image_layers s ! nat (uint r * 2)"
    if "image_slot_state s ! nat (uint r * 2) = tens_digit v"
  proof -
    from that same e0 have "s' = s1" by (simp add: tens_digit_def)
    with e1 ne show ?thesis by simp
  qed
  from a b show ?thesis by blast
qed

section \<open>The slot invariant\<close>

text \<open>
  C1. At every observable point, that is in the initial state and after any sequence
  of calls of \<open>load_digit_image_into_slot\<close>, \<open>unload_digit_image_from_slot\<close>,
  \<open>display_value\<close> and the teardown loop (with any arguments, and with \<open>zero_prefix\<close>
  changed at will in between) that returns normally, each slot \<open>i\<close> has
  \<open>image_slot_state[i] != EMPTY_SLOT\<close> exactly when \<open>images[i]\<close> points to a live
  bitmap, and exactly when \<open>image_layers[i]\<close> points to a live layer.
\<close>

theorem slot_state_matches_handles:
  assumes "run_ops xs (initial_state rs) = Inr s" and "i < 4"
  shows "(image_slot_state s ! i \<noteq> EMPTY_SLOT) = holds (images s) (live_bitmaps s) i
       \<and> (image_slot_state s ! i \<noteq> EMPTY_SLOT) = holds (image_layers s) (live_layers s) i"
proof -
  have "cache_inv s"
    using inv_initial_state assms(1) by (rule inv_run_ops)
  then have ob: "owns (image_slot_state s) (images s) (live_bitmaps s) (requests s)"
    and ol: "owns (image_slot_state s) (image_layers s) (live_layers s) (layers_made s)"
    by (simp_all add: cache_inv_def)
  show ?thesis
    using owns_slot [OF ob assms(2)] owns_slot [OF ol assms(2)] by (rule conjI)
qed

theorem slot_state_matches_handles_witness:
  "\<exists>s. run_ops [Do_display_value 59 1 True, Do_load 0 3, Do_unload 3] (initial_state []) = Inr s
     \<and> image_slot_state s = [3, - 1, 5, - 1]
     \<and> images s = [Some 2, None, Some 1, Some 0]
     \<and> live_bitmaps s = [2, 1]
     \<and> (image_slot_state s ! 3 \<noteq> EMPTY_SLOT) = holds (images s) (live_bitmaps s) 3
     \<and> (image_slot_state s ! 3 \<noteq> EMPTY_SLOT) = holds (image_layers s) (live_layers s) 3
     \<and> (image_slot_state s ! 2 \<noteq> EMPTY_SLOT) = holds (images s) (live_bitmaps s) 2
     \<and> (image_slot_state s ! 2 \<noteq> EMPTY_SLOT) = holds (image_layers s) (live_layers s) 2"
proof -
  let ?xs = "[Do_display_value 59 1 True, Do_load 0 3, Do_unload 3]"
  obtain s where s: "run_ops ?xs (initial_state []) = Inr s"
    and v: "image_slot_state s = [3, - 1, 5, - 1]" "images s = [Some 2, None, Some 1, Some 0]"
      "live_bitmaps s = [2, 1]"
    by (simp add: eval_simps)
  have i: "(3::nat) < 4" "(2::nat) < 4" by simp_all
  note a = slot_state_matches_handles [OF s i(1)] and b = slot_state_matches_handles [OF s i(2)]
  show ?thesis using s v a b by blast
qed

section \<open>Failure of a bitmap request\<close>

text \<open>
  C2. The claim: when the bitmap for a digit cannot be acquired, the slot is left
  empty, nothing leaks, nothing crashes, the condition is reported and the other
  slot of the row is still updated. The code has no check of the pointer returned
  by \<open>gbitmap_create_with_resource\<close>: with the first request refused,
  \<open>load_digit_image_into_slot(1, 2)\<close> on the initial state stores \<open>NULL\<close> in
  \<open>images[1]\<close> and dereferences it, and \<open>display_value(12, 0, true)\<close>, which starts
  with that call, ends there without touching slot 0.
\<close>

theorem refused_bitmap_is_dereferenced:
  "load_digit_image_into_slot 1 2 (initial_state [0]) = Inl NullDeref
   \<and> display_value 12 0 True (initial_state [0]) = Inl NullDeref"
  by (simp add: eval_simps)

section \<open>Replacing the digit of a slot\<close>

text \<open>
  C3, as amended. \<open>load_digit_image_into_slot(p, d)\<close> on a slot that shows another
  digit does nothing: the slot keeps its digit and nothing is released or acquired.
  The replacement is made by the column step of \<open>display_value\<close>. For a slot \<open>p\<close> of
  row 0 or 1 that shows a digit other than \<open>d\<close>, the step first calls
  \<open>unload_digit_image_from_slot(p)\<close>, which destroys the layer \<open>l\<close> and releases the
  bitmap \<open>h\<close> that the slot held: on every path neither is live afterwards.
  \<^item> Unless the column is the blanked leading zero, and with the next bitmap request
    granted, the step then calls \<open>load_digit_image_into_slot(p, d)\<close>, which acquires
    a new bitmap and creates a new layer: slot \<open>p\<close> shows \<open>d\<close> and holds both, and
    nothing else in the state has changed.
  \<^item> For the blanked leading zero (slot 0, digit 0, \<open>zero_prefix\<close> off) nothing is
    loaded: the slot is left empty, and nothing else in the state has changed.
\<close>

theorem replace_digit_in_column:
  assumes w: "cache_inv s" and r: "r < 2" and col: "col = 0 \<or> col = 1"
    and p: "p = uint r * 2 + col" and d: "d = uint (v mod 10)"
    and occ: "image_slot_state s ! nat p \<noteq> EMPTY_SLOT"
    and dif: "image_slot_state s ! nat p \<noteq> d"
  shows "load_digit_image_into_slot p d s = Inr (s\<lparr>trace := trace s @ [CallLoad p d]\<rparr>)
     \<and> (\<exists>h l. images s ! nat p = Some h \<and> h \<in> set (live_bitmaps s)
           \<and> image_layers s ! nat p = Some l \<and> l \<in> set (live_layers s)
           \<and> ((zero_prefix s \<or> d \<noteq> 0 \<or> p \<noteq> 0) \<and> requests s \<notin> set (refused s) \<longrightarrow>
                (\<exists>s'. display_value_column col v r changed s = Inr s'
                   \<and> s' = s\<lparr>image_slot_state := (image_slot_state s)[nat p := d],
                            images := (images s)[nat p := Some (requests s)],
                            image_layers := (image_layers s)[nat p := Some (layers_made s)],
                            requests := Suc (requests s),
                            live_bitmaps := requests s # removeAll h (live_bitmaps s),
                            layers_made := Suc (layers_made s),
                            live_layers := layers_made s # removeAll l (live_layers s),
                            trace := trace s @ [CallUnload p, Release h,
                                                CallLoad p d, Acquire d (requests s)]\<rparr>
                   \<and> image_slot_state s' ! nat p = d
                   \<and> h \<notin> set (live_bitmaps s') \<and> l \<notin> set (live_layers s')
                   \<and> holds (images s') (live_bitmaps s') (nat p)
                   \<and> holds (image_layers s') (live_layers s') (nat p)))
           \<and> (\<not> (zero_prefix s \<or> d \<noteq> 0 \<or> p \<noteq> 0) \<longrightarrow>
                (\<exists>s'. display_value_column col v r changed s = Inr s'
                   \<and> s' = s\<lparr>image_slot_state := (image_slot_state s)[nat p := EMPTY_SLOT],
                            live_bitmaps := removeAll h (live_bitmaps s),
                            live_layers := removeAll l (live_layers s),
                            trace := trace s @ [CallUnload p, Release h]\<rparr>
                   \<and> image_slot_state s' ! nat p = EMPTY_SLOT
                   \<and> h \<notin> set (live_bitmaps s') \<and> l \<notin> set (live_layers s'))))"
proof
  show "load_digit_image_into_slot p d s = Inr (s\<lparr>trace := trace s @ [CallLoad p d]\<rparr>)"
    using occ by (rule load_occupied)
next
  from row_cases [OF r] col p have pr: "0 \<le> p" "p < 4" by auto
  have dr: "0 \<le> d" "d \<le> 9" using digit_range [of v] d by simp_all
  have len: "length (image_slot_state s) = 4" "length (images s) = 4"
    "length (image_layers s) = 4"
    using w by (simp_all add: inv_lengths)
  from w pr occ obtain h l where h: "images s ! nat p = Some h" "h \<in> set (live_bitmaps s)"
    and l: "image_layers s ! nat p = Some l" "l \<in> set (live_layers s)"
    and u: "unload_digit_image_from_slot p s =
       Inr (s\<lparr>image_slot_state := (image_slot_state s)[nat p := EMPTY_SLOT],
               live_bitmaps := removeAll h (live_bitmaps s),
               live_layers := removeAll l (live_layers s),
               trace := trace s @ [CallUnload p, Release h]\<rparr>)"
    by (rule inv_unload_occupied)
  define s1 where "s1 = s\<lparr>image_slot_state := (image_slot_state s)[nat p := EMPTY_SLOT],
               live_bitmaps := removeAll h (live_bitmaps s),
               live_layers := removeAll l (live_layers s),
               trace := trace s @ [CallUnload p, Release h]\<rparr>"
  have col_eq: "display_value_column col v r changed s =
      and_then (unload_digit_image_from_slot p s) (\<lambda>s1.
         if zero_prefix s1 \<or> d \<noteq> 0 \<or> p \<noteq> 0
         then load_digit_image_into_slot p d s1 else Inr s1)"
    using pr dif unfolding display_value_column_def p [symmetric] d [symmetric]
    by (simp add: Let_def TOTAL_IMAGE_SLOTS_def)
  have zp: "zero_prefix s1 = zero_prefix s" by (simp add: s1_def)
  have step: "display_value_column col v r changed s =
      (if zero_prefix s \<or> d \<noteq> 0 \<or> p \<noteq> 0
       then load_digit_image_into_slot p d s1 else Inr s1)"
    unfolding col_eq u s1_def [symmetric] and_then_Inr zp by (rule refl)
  have fresh_b: "requests s \<notin> set (live_bitmaps s)"
    and fresh_l: "layers_made s \<notin> set (live_layers s)"
    using w by (auto simp: cache_inv_def dest: owns_fresh)
  have ne: "h \<noteq> requests s" "l \<noteq> layers_made s"
    using h l fresh_b fresh_l by auto
  have shown: "\<exists>s'. display_value_column col v r changed s = Inr s'
        \<and> s' = s\<lparr>image_slot_state := (image_slot_state s)[nat p := d],
                 images := (images s)[nat p := Some (requests s)],
                 image_layers := (image_layers s)[nat p := Some (layers_made s)],
                 requests := Suc (requests s),
                 live_bitmaps := requests s # removeAll h (live_bitmaps s),
                 layers_made := Suc (layers_made s),
                 live_layers := layers_made s # removeAll l (live_layers s),
                 trace := trace s @ [CallUnload p, Release h,
                                     CallLoad p d, Acquire d (requests s)]\<rparr>
        \<and> image_slot_state s' ! nat p = d
        \<and> h \<notin> set (live_bitmaps s') \<and> l \<notin> set (live_layers s')
        \<and> holds (images s') (live_bitmaps s') (nat p)
        \<and> holds (image_layers s') (live_layers s') (nat p)"
    if a: "(zero_prefix s \<or> d \<noteq> 0 \<or> p \<noteq> 0) \<and> requests s \<notin> set (refused s)"
  proof -
    have e1: "image_slot_state s1 ! nat p = EMPTY_SLOT" "requests s1 \<notin> set (refused s1)"
      using len pr a by (simp_all add: s1_def)
    note lg = load_granted [OF pr dr e1]
    from a have res: "display_value_column col v r changed s =
        load_digit_image_into_slot p d s1"
      by (simp add: step)
    show ?thesis
      unfolding res lg using len pr ne by (simp add: s1_def holds_def)
  qed
  have blank: "\<exists>s'. display_value_column col v r changed s = Inr s'
        \<and> s' = s\<lparr>image_slot_state := (image_slot_state s)[nat p := EMPTY_SLOT],
                 live_bitmaps := removeAll h (live_bitmaps s),
                 live_layers := removeAll l (live_layers s),
                 trace := trace s @ [CallUnload p, Release h]\<rparr>
        \<and> image_slot_state s' ! nat p = EMPTY_SLOT
        \<and> h \<notin> set (live_bitmaps s') \<and> l \<notin> set (live_layers s')"
    if a: "\<not> (zero_prefix s \<or> d \<noteq> 0 \<or> p \<noteq> 0)"
  proof -
    from a have "display_value_column col v r changed s = Inr s1"
      by (simp only: step if_False)
    then show ?thesis using len pr by (simp add: s1_def)
  qed
  from h l shown blank
  show "\<exists>h l. images s ! nat p = Some h \<and> h \<in> set (live_bitmaps s)
           \<and> image_layers s ! nat p = Some l \<and> l \<in> set (live_layers s)
           \<and> ((zero_prefix s \<or> d \<noteq> 0 \<or> p \<noteq> 0) \<and> requests s \<notin> set (refused s) \<longrightarrow>
                (\<exists>s'. display_value_column col v r changed s = Inr s'
                   \<and> s' = s\<lparr>image_slot_state := (image_slot_state s)[nat p := d],
                            images := (images s)[nat p := Some (requests s)],
                            image_layers := (image_layers s)[nat p := Some (layers_made s)],
                            requests := Suc (requests s),
                            live_bitmaps := requests s # removeAll h (live_bitmaps s),
                            layers_made := Suc (layers_made s),
                            live_layers := layers_made s # removeAll l (live_layers s),
                            trace := trace s @ [CallUnload p, Release h,
                                                CallLoad p d, Acquire d (requests s)]\<rparr>
                   \<and> image_slot_state s' ! nat p = d
                   \<and> h \<notin> set (live_bitmaps s') \<and> l \<notin> set (live_layers s')
                   \<and> holds (images s') (live_bitmaps s') (nat p)
                   \<and> holds (image_layers s') (live_layers s') (nat p)))
           \<and> (\<not> (zero_prefix s \<or> d \<noteq> 0 \<or> p \<noteq> 0) \<longrightarrow>
                (\<exists>s'. display_value_column col v r changed s = Inr s'
                   \<and> s' = s\<lparr>image_slot_state := (image_slot_state s)[nat p := EMPTY_SLOT],
                            live_bitmaps := removeAll h (live_bitmaps s),
                            live_layers := removeAll l (live_layers s),
                            trace := trace s @ [CallUnload p, Release h]\<rparr>
                   \<and> image_slot_state s' ! nat p = EMPTY_SLOT
                   \<and> h \<notin> set (live_bitmaps s') \<and> l \<notin> set (live_layers s')))"
    by blast
qed

text \<open>
  Row 1 shows 30 and its tens column is given the digit 5: bitmap 1 and layer 1 are
  replaced by bitmap 2 and layer 2. Row 0 shows 12 and its tens column is given the
  digit 0 with \<open>zero_prefix\<close> off: bitmap 1 and layer 1 are released and slot 0 is
  left empty.
\<close>

theorem replace_digit_in_column_witness:
  "(\<exists>s. display_value 30 1 True (initial_state []) = Inr s
      \<and> cache_inv s \<and> (1 :: 16 word) < 2
      \<and> image_slot_state s = [- 1, - 1, 3, 0]
      \<and> images s ! 2 = Some 1 \<and> image_layers s ! 2 = Some 1
      \<and> requests s \<notin> set (refused s)
      \<and> load_digit_image_into_slot 2 5 s = Inr (s\<lparr>trace := trace s @ [CallLoad 2 5]\<rparr>)
      \<and> display_value_column 0 5 1 False s =
          Inr \<lparr>image_slot_state = [- 1, - 1, 5, 0],
               images = [None, None, Some 2, Some 0],
               image_layers = [None, None, Some 2, Some 0],
               zero_prefix = False, refused = [], requests = 3,
               live_bitmaps = [2, 0], layers_made = 3, live_layers = [2, 0],
               trace = [CallUnload 3, CallLoad 3 0, Acquire 0 0,
                        CallUnload 2, CallLoad 2 3, Acquire 3 1,
                        CallUnload 2, Release 1, CallLoad 2 5, Acquire 5 2]\<rparr>)
   \<and> (\<exists>s. display_value 12 0 True (initial_state []) = Inr s
      \<and> cache_inv s \<and> (0 :: 16 word) < 2
      \<and> image_slot_state s = [1, 2, - 1, - 1]
      \<and> images s ! 0 = Some 1 \<and> image_layers s ! 0 = Some 1
      \<and> zero_prefix s = False
      \<and> display_value_column 0 0 0 False s =
          Inr \<lparr>image_slot_state = [- 1, 2, - 1, - 1],
               images = [Some 1, Some 0, None, None],
               image_layers = [Some 1, Some 0, None, None],
               zero_prefix = False, refused = [], requests = 2,
               live_bitmaps = [0], layers_made = 2, live_layers = [0],
               trace = [CallUnload 1, CallLoad 1 2, Acquire 2 0,
                        CallUnload 0, CallLoad 0 1, Acquire 1 1,
                        CallUnload 0, Release 1]\<rparr>)"
proof
  define s where "s =
    \<lparr>image_slot_state = [- 1, - 1, 3, 0],
     images = [None, None, Some 1, Some 0],
     image_layers = [None, None, Some 1, Some 0],
     zero_prefix = False, refused = [], requests = 2,
     live_bitmaps = [1, 0], layers_made = 2, live_layers = [1, 0],
     trace = [CallUnload 3, CallLoad 3 0, Acquire 0 0,
              CallUnload 2, CallLoad 2 3, Acquire 3 1]\<rparr>"
  have s: "display_value 30 1 True (initial_state []) = Inr s"
    by (simp add: s_def eval_simps)
  have w: "cache_inv s"
    using inv_initial_state s by (rule inv_display_value)
  have r: "(1 :: 16 word) < 2" by simp
  have v: "image_slot_state s = [- 1, - 1, 3, 0]" "images s ! 2 = Some 1"
    "image_layers s ! 2 = Some 1" "requests s \<notin> set (refused s)"
    by (simp_all add: s_def)
  note t = replace_digit_in_column [OF w r, where col = 0 and p = 2 and d = 5 and v = 5
      and changed = False]
  have pre: "(0 :: int) = 0 \<or> (0 :: int) = 1" "(2 :: int) = uint (1 :: 16 word) * 2 + 0"
    "(5 :: int) = uint ((5 :: 16 word) mod 10)"
    "image_slot_state s ! nat 2 \<noteq> EMPTY_SLOT" "image_slot_state s ! nat 2 \<noteq> 5"
    by (simp_all add: s_def EMPTY_SLOT_def)
  from t [OF pre] have a: "load_digit_image_into_slot 2 5 s =
      Inr (s\<lparr>trace := trace s @ [CallLoad 2 5]\<rparr>)"
    by (rule conjunct1)
  from t [OF pre] obtain h l where hl: "images s ! nat 2 = Some h" "image_layers s ! nat 2 = Some l"
    and imp: "(zero_prefix s \<or> (5 :: int) \<noteq> 0 \<or> (2 :: int) \<noteq> 0)
        \<and> requests s \<notin> set (refused s) \<longrightarrow>
        (\<exists>s'. display_value_column 0 5 1 False s = Inr s'
           \<and> s' = s\<lparr>image_slot_state := (image_slot_state s)[nat 2 := 5],
                    images := (images s)[nat 2 := Some (requests s)],
                    image_layers := (image_layers s)[nat 2 := Some (layers_made s)],
                    requests := Suc (requests s),
                    live_bitmaps := requests s # removeAll h (live_bitmaps s),
                    layers_made := Suc (layers_made s),
                    live_layers := layers_made s # removeAll l (live_layers s),
                    trace := trace s @ [CallUnload 2, Release h,
                                        CallLoad 2 5, Acquire 5 (requests s)]\<rparr>
           \<and> image_slot_state s' ! nat 2 = 5
           \<and> h \<notin> set (live_bitmaps s') \<and> l \<notin> set (live_layers s')
           \<and> holds (images s') (live_bitmaps s') (nat 2)
           \<and> holds (image_layers s') (live_layers s') (nat 2))"
    by blast
  from hl have "h = 1" "l = 1" by (simp_all add: s_def)
  with imp v(4) have "display_value_column 0 5 1 False s =
          Inr \<lparr>image_slot_state = [- 1, - 1, 5, 0],
               images = [None, None, Some 2, Some 0],
               image_layers = [None, None, Some 2, Some 0],
               zero_prefix = False, refused = [], requests = 3,
               live_bitmaps = [2, 0], layers_made = 3, live_layers = [2, 0],
               trace = [CallUnload 3, CallLoad 3 0, Acquire 0 0,
                        CallUnload 2, CallLoad 2 3, Acquire 3 1,
                        CallUnload 2, Release 1, CallLoad 2 5, Acquire 5 2]\<rparr>"
    by (simp add: s_def)
  with s w r v a show "\<exists>s. display_value 30 1 True (initial_state []) = Inr s
      \<and> cache_inv s \<and> (1 :: 16 word) < 2
      \<and> image_slot_state s = [- 1, - 1, 3, 0]
      \<and> images s ! 2 = Some 1 \<and> image_layers s ! 2 = Some 1
      \<and> requests s \<notin> set (refused s)
      \<and> load_digit_image_into_slot 2 5 s = Inr (s\<lparr>trace := trace s @ [CallLoad 2 5]\<rparr>)
      \<and> display_value_column 0 5 1 False s =
          Inr \<lparr>image_slot_state = [- 1, - 1, 5, 0],
               images = [None, None, Some 2, Some 0],
               image_layers = [None, None, Some 2, Some 0],
               zero_prefix = False, refused = [], requests = 3,
               live_bitmaps = [2, 0], layers_made = 3, live_layers = [2, 0],
               trace = [CallUnload 3, CallLoad 3 0, Acquire 0 0,
                        CallUnload 2, CallLoad 2 3, Acquire 3 1,
                        CallUnload 2, Release 1, CallLoad 2 5, Acquire 5 2]\<rparr>"
    by blast
next
  define s where "s =
    \<lparr>image_slot_state = [1, 2, - 1, - 1],
     images = [Some 1, Some 0, None, None],
     image_layers = [Some 1, Some 0, None, None],
     zero_prefix = False, refused = [], requests = 2,
     live_bitmaps = [1, 0], layers_made = 2, live_layers = [1, 0],
     trace = [CallUnload 1, CallLoad 1 2, Acquire 2 0,
              CallUnload 0, CallLoad 0 1, Acquire 1 1]\<rparr>"
  have s: "display_value 12 0 True (initial_state []) = Inr s"
    by (simp add: s_def eval_simps)
  have w: "cache_inv s"
    using inv_initial_state s by (rule inv_display_value)
  have r: "(0 :: 16 word) < 2" by simp
  have v: "image_slot_state s = [1, 2, - 1, - 1]" "images s ! 0 = Some 1"
    "image_layers s ! 0 = Some 1" "zero_prefix s = False"
    by (simp_all add: s_def)
  note t = replace_digit_in_column [OF w r, where col = 0 and p = 0 and d = 0 and v = 0
      and changed = False]
  have pre: "(0 :: int) = 0 \<or> (0 :: int) = 1" "(0 :: int) = uint (0 :: 16 word) * 2 + 0"
    "(0 :: int) = uint ((0 :: 16 word) mod 10)"
    "image_slot_state s ! nat 0 \<noteq> EMPTY_SLOT" "image_slot_state s ! nat 0 \<noteq> 0"
    by (simp_all add: s_def EMPTY_SLOT_def)
  from t [OF pre] obtain h l where hl: "images s ! nat 0 = Some h" "image_layers s ! nat 0 = Some l"
    and imp: "\<not> (zero_prefix s \<or> (0 :: int) \<noteq> 0 \<or> (0 :: int) \<noteq> 0) \<longrightarrow>
        (\<exists>s'. display_value_column 0 0 0 False s = Inr s'
           \<and> s' = s\<lparr>image_slot_state := (image_slot_state s)[nat 0 := EMPTY_SLOT],
                    live_bitmaps := removeAll h (live_bitmaps s),
                    live_layers := removeAll l (live_layers s),
                    trace := trace s @ [CallUnload 0, Release h]\<rparr>
           \<and> image_slot_state s' ! nat 0 = EMPTY_SLOT
           \<and> h \<notin> set (live_bitmaps s') \<and> l \<notin> set (live_layers s'))"
    by blast
  from hl have "h = 1" "l = 1" by (simp_all add: s_def)
  with imp v(4) have "display_value_column 0 0 0 False s =
          Inr \<lparr>image_slot_state = [- 1, 2, - 1, - 1],
               images = [Some 1, Some 0, None, None],
               image_layers = [Some 1, Some 0, None, None],
               zero_prefix = False, refused = [], requests = 2,
               live_bitmaps = [0], layers_made = 2, live_layers = [0],
               trace = [CallUnload 1, CallLoad 1 2, Acquire 2 0,
                        CallUnload 0, CallLoad 0 1, Acquire 1 1,
                        CallUnload 0, Release 1]\<rparr>"
    by (simp add: s_def EMPTY_SLOT_def)
  with s w r v show "\<exists>s. display_value 12 0 True (initial_state []) = Inr s
      \<and> cache_inv s \<and> (0 :: 16 word) < 2
      \<and> image_slot_state s = [1, 2, - 1, - 1]
      \<and> images s ! 0 = Some 1 \<and> image_layers s ! 0 = Some 1
      \<and> zero_prefix s = False
      \<and> display_value_column 0 0 0 False s =
          Inr \<lparr>image_slot_state = [- 1, 2, - 1, - 1],
               images = [Some 1, Some 0, None, None],
               image_layers = [Some 1, Some 0, None, None],
               zero_prefix = False, refused = [], requests = 2,
               live_bitmaps = [0], layers_made = 2, live_layers = [0],
               trace = [CallUnload 1, CallLoad 1 2, Acquire 2 0,
                        CallUnload 0, CallLoad 0 1, Acquire 1 1,
                        CallUnload 0, Release 1]\<rparr>"
    by blast
qed

text \<open>
  The claim as stated fails: slot 0 shows 3, and \<open>load_digit_image_into_slot(0, 5)\<close>
  leaves it showing 3, with no release and no second acquisition in the trace.
\<close>

theorem load_on_occupied_slot_counterexample:
  "run_ops [Do_load 0 3, Do_load 0 5] (initial_state [])
   = Inr \<lparr>image_slot_state = [3, - 1, - 1, - 1],
        images = [Some 0, None, None, None],
        image_layers = [Some 0, None, None, None],
        zero_prefix = False, refused = [], requests = 1,
        live_bitmaps = [0], layers_made = 1, live_layers = [0],
        trace = [CallLoad 0 3, Acquire 3 0, CallLoad 0 5]\<rparr>"
  by (simp add: eval_simps)

section \<open>Arguments out of range\<close>

text \<open>
  C4. The claim: a position outside 0..3 fails with \<open>InvalidPosition\<close> and a digit
  outside 0..9 with \<open>InvalidDigit\<close>, surfaced to the caller. The code, under the
  comment \<open>TODO: Signal these error's\<close>, returns normally in each of these cases with
  every variable of the program unchanged (only the call is added to the trace).
\<close>

theorem invalid_arguments_not_signalled:
  "load_digit_image_into_slot 4 5 s = Inr (s\<lparr>trace := trace s @ [CallLoad 4 5]\<rparr>)
   \<and> load_digit_image_into_slot (- 1) 5 s = Inr (s\<lparr>trace := trace s @ [CallLoad (- 1) 5]\<rparr>)
   \<and> load_digit_image_into_slot 0 10 s = Inr (s\<lparr>trace := trace s @ [CallLoad 0 10]\<rparr>)
   \<and> load_digit_image_into_slot 0 (- 1) s = Inr (s\<lparr>trace := trace s @ [CallLoad 0 (- 1)]\<rparr>)"
  by (simp add: load_invalid)

section \<open>Rendering a row without force\<close>

text \<open>
  C5, as amended. For \<open>display_value\<close> with \<open>changed\<close> false on row 0 or 1 that
  returns: the calls made are, for the ones column and then for the tens column,
  none when the slot already shows the column's digit, one
  \<open>unload_digit_image_from_slot\<close> followed by one \<open>load_digit_image_into_slot\<close> when
  it does not, and one \<open>unload_digit_image_from_slot\<close> alone for the blanked leading
  zero (slot 0, digit 0, \<open>zero_prefix\<close> off). A column whose slot already shows its
  digit keeps its state, its bitmap pointer and its layer pointer.
\<close>

theorem display_value_unforced:
  assumes "cache_inv s" and "r < 2" and "display_value v r False s = Inr s'"
  shows "calls (trace s') =
           calls (trace s) @ column_calls False s (uint r * 2 + 1) (ones_digit v)
             @ column_calls False s (uint r * 2) (tens_digit v)
     \<and> (image_slot_state s ! nat (uint r * 2 + 1) = ones_digit v \<longrightarrow>
            image_slot_state s' ! nat (uint r * 2 + 1) = ones_digit v
          \<and> images s' ! nat (uint r * 2 + 1) = images s ! nat (uint r * 2 + 1)
          \<and> image_layers s' ! nat (uint r * 2 + 1) = image_layers s ! nat (uint r * 2 + 1))
     \<and> (image_slot_state s ! nat (uint r * 2) = tens_digit v \<longrightarrow>
            image_slot_state s' ! nat (uint r * 2) = tens_digit v
          \<and> images s' ! nat (uint r * 2) = images s ! nat (uint r * 2)
          \<and> image_layers s' ! nat (uint r * 2) = image_layers s ! nat (uint r * 2))"
proof -
  from display_value_effect [OF assms]
  have c: "calls (trace s') =
           calls (trace s) @ column_calls False s (uint r * 2 + 1) (ones_digit v)
             @ column_calls False s (uint r * 2) (tens_digit v)" by simp
  note sh = display_value_shows [OF assms]
  note un = display_value_untouched [OF assms]
  have t: "column_shows False s (uint r * 2) (tens_digit v) = tens_digit v"
    if "image_slot_state s ! nat (uint r * 2) = tens_digit v"
    using that by (simp add: column_shows_def)
  from c sh un t show ?thesis by auto
qed

text \<open>
  Row 1 shows 00 and is given 59: both columns are unloaded and loaded once.
  Row 1 shows 50 and is given 59: only the ones column is.
\<close>

theorem display_value_unforced_witness:
  "(\<exists>s s'. display_value 0 1 True (initial_state []) = Inr s
      \<and> cache_inv s \<and> (1 :: 16 word) < 2
      \<and> image_slot_state s = [- 1, - 1, 0, 0]
      \<and> display_value 59 1 False s = Inr s'
      \<and> image_slot_state s' = [- 1, - 1, 5, 9]
      \<and> calls (trace s') =
          calls (trace s) @ [CallUnload 3, CallLoad 3 9, CallUnload 2, CallLoad 2 5])
   \<and> (\<exists>s s'. display_value 50 1 True (initial_state []) = Inr s
      \<and> cache_inv s
      \<and> image_slot_state s = [- 1, - 1, 5, 0]
      \<and> display_value 59 1 False s = Inr s'
      \<and> image_slot_state s' = [- 1, - 1, 5, 9]
      \<and> calls (trace s') = calls (trace s) @ [CallUnload 3, CallLoad 3 9]
      \<and> images s' ! 2 = images s ! 2 \<and> image_layers s' ! 2 = image_layers s ! 2)"
proof
  define s where "s =
    \<lparr>image_slot_state = [- 1, - 1, 0, 0],
     images = [None, None, Some 1, Some 0],
     image_layers = [None, None, Some 1, Some 0],
     zero_prefix = False, refused = [], requests = 2,
     live_bitmaps = [1, 0], layers_made = 2, live_layers = [1, 0],
     trace = [CallUnload 3, CallLoad 3 0, Acquire 0 0,
              CallUnload 2, CallLoad 2 0, Acquire 0 1]\<rparr>"
  have s: "display_value 0 1 True (initial_state []) = Inr s"
    by (simp add: s_def eval_simps)
  have w: "cache_inv s"
    using inv_initial_state s by (rule inv_display_value)
  have r: "(1 :: 16 word) < 2" by simp
  obtain s' where s': "display_value 59 1 False s = Inr s'"
    and v: "image_slot_state s' = [- 1, - 1, 5, 9]"
    by (simp add: s_def eval_simps)
  have d: "ones_digit 59 = 9" "tens_digit 59 = 5"
    by (simp_all add: ones_digit_eq tens_digit_eq)
  have c: "column_calls False s (uint (1 :: 16 word) * 2 + 1) 9 = [CallUnload 3, CallLoad 3 9]"
    "column_calls False s (uint (1 :: 16 word) * 2) 5 = [CallUnload 2, CallLoad 2 5]"
    by (simp_all add: column_calls_def s_def)
  from display_value_unforced [OF w r s'] d c
  have "calls (trace s') =
      calls (trace s) @ [CallUnload 3, CallLoad 3 9, CallUnload 2, CallLoad 2 5]"
    by simp
  moreover have "image_slot_state s = [- 1, - 1, 0, 0]" by (simp add: s_def)
  ultimately show "\<exists>s s'. display_value 0 1 True (initial_state []) = Inr s
      \<and> cache_inv s \<and> (1 :: 16 word) < 2
      \<and> image_slot_state s = [- 1, - 1, 0, 0]
      \<and> display_value 59 1 False s = Inr s'
      \<and> image_slot_state s' = [- 1, - 1, 5, 9]
      \<and> calls (trace s') =
          calls (trace s) @ [CallUnload 3, CallLoad 3 9, CallUnload 2, CallLoad 2 5]"
    using s w r s' v by blast
next
  define s where "s =
    \<lparr>image_slot_state = [- 1, - 1, 5, 0],
     images = [None, None, Some 1, Some 0],
     image_layers = [None, None, Some 1, Some 0],
     zero_prefix = False, refused = [], requests = 2,
     live_bitmaps = [1, 0], layers_made = 2, live_layers = [1, 0],
     trace = [CallUnload 3, CallLoad 3 0, Acquire 0 0,
              CallUnload 2, CallLoad 2 5, Acquire 5 1]\<rparr>"
  have s: "display_value 50 1 True (initial_state []) = Inr s"
    by (simp add: s_def eval_simps)
  have w: "cache_inv s"
    using inv_initial_state s by (rule inv_display_value)
  have r: "(1 :: 16 word) < 2" by simp
  obtain s' where s': "display_value 59 1 False s = Inr s'"
    and v: "image_slot_state s' = [- 1, - 1, 5, 9]"
    by (simp add: s_def eval_simps)
  have d: "ones_digit 59 = 9" "tens_digit 59 = 5"
    by (simp_all add: ones_digit_eq tens_digit_eq)
  have c: "column_calls False s (uint (1 :: 16 word) * 2 + 1) 9 = [CallUnload 3, CallLoad 3 9]"
    "column_calls False s (uint (1 :: 16 word) * 2) 5 = []"
    by (simp_all add: column_calls_def s_def)
  from display_value_unforced [OF w r s'] d c
  have "calls (trace s') = calls (trace s) @ [CallUnload 3, CallLoad 3 9]"
    and "images s' ! 2 = images s ! 2 \<and> image_layers s' ! 2 = image_layers s ! 2"
    by (simp_all add: s_def)
  moreover have "image_slot_state s = [- 1, - 1, 5, 0]" by (simp add: s_def)
  ultimately show "\<exists>s s'. display_value 50 1 True (initial_state []) = Inr s
      \<and> cache_inv s
      \<and> image_slot_state s = [- 1, - 1, 5, 0]
      \<and> display_value 59 1 False s = Inr s'
      \<and> image_slot_state s' = [- 1, - 1, 5, 9]
      \<and> calls (trace s') = calls (trace s) @ [CallUnload 3, CallLoad 3 9]
      \<and> images s' ! 2 = images s ! 2 \<and> image_layers s' ! 2 = image_layers s ! 2"
    using s w s' v by blast
qed

text \<open>
  The claim as stated fails: on the initial state, \<open>display_value(5, 0, false)\<close>
  finds slot 0 empty, which differs from the digit 0, and calls
  \<open>unload_digit_image_from_slot(0)\<close> but not \<open>load_digit_image_into_slot(0, 0)\<close>.
\<close>

theorem blanked_column_counterexample:
  "display_value 5 0 False (initial_state [])
   = Inr \<lparr>image_slot_state = [- 1, 5, - 1, - 1],
        images = [None, Some 0, None, None],
        image_layers = [None, Some 0, None, None],
        zero_prefix = False, refused = [], requests = 1,
        live_bitmaps = [0], layers_made = 1, live_layers = [0],
        trace = [CallUnload 1, CallLoad 1 5, Acquire 5 0, CallUnload 0]\<rparr>"
  by (simp add: eval_simps)

section \<open>Leading-zero blanking\<close>




section \<open>The display hour\<close>

text \<open>
  C7. \<open>get_display_hour\<close> is a function of its two inputs alone. In 24-hour mode it
  returns the hour unchanged; in 12-hour mode it returns \<open>hour % 12\<close>, with 0
  replaced by 12, so the result lies in 1..12; hour 0 gives 12 and hour 13 gives 1.
  This holds for every 16-bit hour, in particular for 0..23.
\<close>

theorem get_display_hour_correct:
  "get_display_hour True hour = hour
   \<and> get_display_hour False hour = (if hour mod 12 = 0 then 12 else hour mod 12)
   \<and> 1 \<le> get_display_hour False hour \<and> get_display_hour False hour \<le> 12
   \<and> get_display_hour False 0 = 12
   \<and> get_display_hour False 13 = 1"
proof -
  have "hour mod 12 < 12"
    by (rule word_mod_less_divisor) simp
  then have lt: "hour mod 12 \<le> 12"
    by (rule order_less_imp_le)
  have pos: "hour mod 12 \<noteq> 0 \<Longrightarrow> 1 \<le> hour mod 12"
    by (simp add: word_le_nat_alt unat_gt_0 Suc_le_eq)
  show ?thesis
    using lt pos by (simp add: get_display_hour_def Let_def)
qed

section \<open>Loading the same digit twice\<close>

text \<open>
  C8, as amended. For a valid slot \<open>p\<close> and digit \<open>d\<close>: when slot \<open>p\<close> is empty and
  the next bitmap request is granted, the first \<open>load_digit_image_into_slot(p, d)\<close>
  acquires exactly one bitmap and the slot shows \<open>d\<close>; when slot \<open>p\<close> is occupied,
  the first call changes nothing. In both cases the second call changes nothing and
  acquires and releases nothing.
\<close>

theorem load_twice:
  assumes w: "cache_inv s" and p: "0 \<le> p" "p < 4" and d: "0 \<le> d" "d \<le> 9"
  shows "(image_slot_state s ! nat p = EMPTY_SLOT \<and> requests s \<notin> set (refused s) \<longrightarrow>
           (\<exists>s1. load_digit_image_into_slot p d s = Inr s1
              \<and> trace s1 = trace s @ [CallLoad p d, Acquire d (requests s)]
              \<and> image_slot_state s1 ! nat p = d
              \<and> load_digit_image_into_slot p d s1 =
                  Inr (s1\<lparr>trace := trace s1 @ [CallLoad p d]\<rparr>)))
     \<and> (image_slot_state s ! nat p \<noteq> EMPTY_SLOT \<longrightarrow>
           (\<exists>s1. load_digit_image_into_slot p d s = Inr s1
              \<and> s1 = s\<lparr>trace := trace s @ [CallLoad p d]\<rparr>
              \<and> load_digit_image_into_slot p d s1 =
                  Inr (s1\<lparr>trace := trace s1 @ [CallLoad p d]\<rparr>)))"
proof (intro conjI impI)
  assume a: "image_slot_state s ! nat p = EMPTY_SLOT \<and> requests s \<notin> set (refused s)"
  have len: "length (image_slot_state s) = 4" using w by (simp add: inv_lengths)
  define s1 where "s1 = s\<lparr>image_slot_state := (image_slot_state s)[nat p := d],
             images := (images s)[nat p := Some (requests s)],
             image_layers := (image_layers s)[nat p := Some (layers_made s)],
             requests := Suc (requests s),
             live_bitmaps := requests s # live_bitmaps s,
             layers_made := Suc (layers_made s),
             live_layers := layers_made s # live_layers s,
             trace := trace s @ [CallLoad p d, Acquire d (requests s)]\<rparr>"
  from a have l: "load_digit_image_into_slot p d s = Inr s1"
    unfolding s1_def by (intro load_granted p d) simp_all
  have st: "image_slot_state s1 ! nat p = d" using len p by (simp add: s1_def)
  with d have "image_slot_state s1 ! nat p \<noteq> EMPTY_SLOT" by (simp add: EMPTY_SLOT_def)
  then have "load_digit_image_into_slot p d s1 = Inr (s1\<lparr>trace := trace s1 @ [CallLoad p d]\<rparr>)"
    by (rule load_occupied)
  with l st show "\<exists>s1. load_digit_image_into_slot p d s = Inr s1
              \<and> trace s1 = trace s @ [CallLoad p d, Acquire d (requests s)]
              \<and> image_slot_state s1 ! nat p = d
              \<and> load_digit_image_into_slot p d s1 =
                  Inr (s1\<lparr>trace := trace s1 @ [CallLoad p d]\<rparr>)"
    by (simp add: s1_def)
next
  assume occ: "image_slot_state s ! nat p \<noteq> EMPTY_SLOT"
  then have l: "load_digit_image_into_slot p d s = Inr (s\<lparr>trace := trace s @ [CallLoad p d]\<rparr>)"
    by (rule load_occupied)
  from occ have "image_slot_state (s\<lparr>trace := trace s @ [CallLoad p d]\<rparr>) ! nat p \<noteq> EMPTY_SLOT"
    by simp
  then have "load_digit_image_into_slot p d (s\<lparr>trace := trace s @ [CallLoad p d]\<rparr>) =
      Inr (s\<lparr>trace := trace s @ [CallLoad p d]\<rparr>
            \<lparr>trace := trace (s\<lparr>trace := trace s @ [CallLoad p d]\<rparr>) @ [CallLoad p d]\<rparr>)"
    by (rule load_occupied)
  with l show "\<exists>s1. load_digit_image_into_slot p d s = Inr s1
              \<and> s1 = s\<lparr>trace := trace s @ [CallLoad p d]\<rparr>
              \<and> load_digit_image_into_slot p d s1 =
                  Inr (s1\<lparr>trace := trace s1 @ [CallLoad p d]\<rparr>)"
    by simp
qed

text \<open>
  Slot 3 of the initial state, digit 8.
\<close>

theorem load_twice_witness:
  "cache_inv (initial_state []) \<and> (0 :: int) \<le> 3 \<and> (3 :: int) < 4 \<and> (0 :: int) \<le> 8
   \<and> (8 :: int) \<le> 9
   \<and> image_slot_state (initial_state []) ! nat 3 = EMPTY_SLOT
   \<and> requests (initial_state []) \<notin> set (refused (initial_state []))
   \<and> (\<exists>s1. load_digit_image_into_slot 3 8 (initial_state []) = Inr s1
         \<and> trace s1 = [CallLoad 3 8, Acquire 8 0]
         \<and> image_slot_state s1 ! 3 = 8
         \<and> load_digit_image_into_slot 3 8 s1 = Inr (s1\<lparr>trace := trace s1 @ [CallLoad 3 8]\<rparr>))"
proof -
  have w: "cache_inv (initial_state [])" by (rule inv_initial_state)
  have e: "image_slot_state (initial_state []) ! nat 3 = EMPTY_SLOT"
    "requests (initial_state []) \<notin> set (refused (initial_state []))"
    by (simp_all add: initial_state_def)
  from load_twice [OF w, of 3 8] e
  obtain s1 where "load_digit_image_into_slot 3 8 (initial_state []) = Inr s1"
    "trace s1 = trace (initial_state []) @ [CallLoad 3 8, Acquire 8 (requests (initial_state []))]"
    "image_slot_state s1 ! nat 3 = 8"
    "load_digit_image_into_slot 3 8 s1 = Inr (s1\<lparr>trace := trace s1 @ [CallLoad 3 8]\<rparr>)"
    by auto
  moreover have "trace (initial_state []) = []" "requests (initial_state []) = 0"
    by (simp_all add: initial_state_def)
  ultimately show ?thesis using w e by auto
qed

text \<open>
  The claim as stated fails: slot 2 shows 7, and neither of two calls
  \<open>load_digit_image_into_slot(2, 4)\<close> acquires a bitmap.
\<close>

theorem load_twice_on_occupied_slot_counterexample:
  "run_ops [Do_load 2 7, Do_load 2 4, Do_load 2 4] (initial_state [])
   = Inr \<lparr>image_slot_state = [- 1, - 1, 7, - 1],
        images = [None, None, Some 0, None],
        image_layers = [None, None, Some 0, None],
        zero_prefix = False, refused = [], requests = 1,
        live_bitmaps = [0], layers_made = 1, live_layers = [0],
        trace = [CallLoad 2 7, Acquire 7 0, CallLoad 2 4, CallLoad 2 4]\<rparr>"
  by (simp add: eval_simps)

section \<open>Teardown\<close>

text \<open>
  C9. After any sequence of calls from the initial state that returned, the slot
  loop of \<open>app_destroy\<close> returns; it calls \<open>unload_digit_image_from_slot\<close> on slots
  0, 1, 2 and 3; afterwards every slot is empty, no bitmap and no layer is live,
  the bitmaps released over the whole run are exactly the bitmaps acquired, as
  many releases as acquisitions, and none is released twice.
\<close>

theorem app_destroy_releases_everything:
  assumes "run_ops xs (initial_state rs) = Inr s"
  shows "\<exists>s'. app_destroy s = Inr s'
     \<and> calls (trace s') =
         calls (trace s) @ [CallUnload 0, CallUnload 1, CallUnload 2, CallUnload 3]
     \<and> image_slot_state s' = [EMPTY_SLOT, EMPTY_SLOT, EMPTY_SLOT, EMPTY_SLOT]
     \<and> live_bitmaps s' = [] \<and> live_layers s' = []
     \<and> acquired (trace s') = acquired (trace s)
     \<and> length (released (trace s')) = length (acquired (trace s))
     \<and> set (released (trace s')) = set (acquired (trace s))
     \<and> distinct (released (trace s'))"
proof -
  have w: "cache_inv s"
    using inv_initial_state assms by (rule inv_run_ops)
  from app_destroy_effect [OF w] obtain s' where
    r: "app_destroy s = Inr s'" and w': "cache_inv s'"
    and e: "image_slot_state s' = [EMPTY_SLOT, EMPTY_SLOT, EMPTY_SLOT, EMPTY_SLOT]"
    and c: "calls (trace s') =
         calls (trace s) @ [CallUnload 0, CallUnload 1, CallUnload 2, CallUnload 3]"
    and a: "acquired (trace s') = acquired (trace s)"
    by blast
  from w' have ob: "owns (image_slot_state s') (images s') (live_bitmaps s') (requests s')"
    and ol: "owns (image_slot_state s') (image_layers s') (live_layers s') (layers_made s')"
    and ac: "accounted (trace s') (live_bitmaps s') (requests s')"
    by (simp_all add: cache_inv_def)
  have lb: "live_bitmaps s' = []" using ob e by (rule owns_all_empty)
  have ll: "live_layers s' = []" using ol e by (rule owns_all_empty)
  from ac lb have "accounted (trace s') [] (requests s')" by simp
  from accounted_no_live [OF this] r c e lb ll a show ?thesis by simp
qed

theorem app_destroy_releases_everything_witness:
  "\<exists>s s'. run_ops [Do_display_value 59 1 True, Do_load 0 3, Do_unload 3,
                    Do_display_value 7 0 False] (initial_state []) = Inr s
     \<and> image_slot_state s = [- 1, 7, 5, - 1] \<and> live_bitmaps s = [3, 1]
     \<and> acquired (trace s) = [0, 1, 2, 3] \<and> released (trace s) = [0, 2]
     \<and> app_destroy s = Inr s'
     \<and> image_slot_state s' = [- 1, - 1, - 1, - 1] \<and> live_bitmaps s' = []
     \<and> released (trace s') = [0, 2, 3, 1]
     \<and> length (released (trace s')) = length (acquired (trace s))"
proof -
  let ?xs = "[Do_display_value 59 1 True, Do_load 0 3, Do_unload 3, Do_display_value 7 0 False]"
  obtain s where s: "run_ops ?xs (initial_state []) = Inr s"
    and v: "image_slot_state s = [- 1, 7, 5, - 1]" "live_bitmaps s = [3, 1]"
      "acquired (trace s) = [0, 1, 2, 3]" "released (trace s) = [0, 2]"
    and d: "\<exists>t. app_destroy s = Inr t \<and> released (trace t) = [0, 2, 3, 1]"
    by (simp add: eval_simps)
  from app_destroy_releases_everything [OF s] obtain s' where
    "app_destroy s = Inr s'"
    "image_slot_state s' = [EMPTY_SLOT, EMPTY_SLOT, EMPTY_SLOT, EMPTY_SLOT]"
    "live_bitmaps s' = []"
    "length (released (trace s')) = length (acquired (trace s))"
    by blast
  with s v d show ?thesis
    by (auto simp: EMPTY_SLOT_def)
qed

section \<open>Values above 99\<close>



end
